theory Spec2Isabelle
  imports Main "HOL-Library.Word" "HOL-Library.Sublist"
begin

unbundle bit_operations_syntax

section \<open>Machine types and error values\<close>

text \<open>
  The package targets amd64 (the hardware accessor issues the amd64 system call 172), so
  Go's \<open>uint\<close> is a 64-bit word whose arithmetic wraps around, \<open>byte\<close> is an 8-bit
  word and the checksum is a \<open>uint16\<close>.
\<close>

type_synonym uint = "64 word"
type_synonym byte = "8 word"
type_synonym uint16 = "16 word"

text \<open>
  Every error the modelled functions return is a constructor of \<open>error\<close>. The three
  package-level error variables keep their names; each \<open>fmt.Errorf\<close> message has a
  constructor of its own, named after the message. \<open>IOError\<close> stands for an error of the
  underlying port file, \<open>LoadError\<close> for a failure of a layout loader or of opening an
  accessor, \<open>PanicIndexOutOfRange\<close> for Go's runtime panic on a slice index that is
  not below the length of the slice, and \<open>PanicNilPointer\<close> for the panic on a nil pointer.
\<close>

datatype error =
    ErrNVRAMAccessInUse
  | ErrInvalidCMOSIndex
  | ErrCMOSNotOpen
  | EntryOutOfRange
  | EntryUnaligned
  | EntryInvalidConfig
  | EntryReserved
  | EntryOverlapsRTC
  | EntryTooWide
  | EntryOverlaps
  | ChecksumStartNotAligned
  | ChecksumEndNotAligned
  | ChecksumLocationNotAligned
  | ChecksumAreaInvalid
  | ChecksumAreaOutOfRange
  | ChecksumLocationOutOfRange
  | ChecksumOverlapsSummedArea
  | ParameterNotFound
  | StringValueRequired
  | Uint64ValueRequired
  | ValueTooWide
  | BadEnumValue
  | EnumValueTooWide
  | IOError
  | LoadError
  | ChecksumBad
  | PanicIndexOutOfRange
  | PanicNilPointer

section \<open>CMOS entries and their validators\<close>

text \<open>The source file is \<^verbatim>\<open>cmos_entry.go\<close>.\<close>

definition cmosSize :: uint where
  "cmosSize = 256"

definition cmosRTCAreaSize :: uint where
  "cmosRTCAreaSize = 14"

definition verifyCMOSByteIndex :: "uint \<Rightarrow> bool" where
  "verifyCMOSByteIndex index \<longleftrightarrow> index \<ge> cmosRTCAreaSize \<and> index < cmosSize"

text \<open>\<open>CMOSEntryConfig\<close> is a byte; the four known kinds are the ASCII codes of e, h, s, r.\<close>

type_synonym CMOSEntryConfig = byte

definition CMOSEntryEnum :: CMOSEntryConfig where
  "CMOSEntryEnum = 0x65"

definition CMOSEntryHex :: CMOSEntryConfig where
  "CMOSEntryHex = 0x68"

definition CMOSEntryString :: CMOSEntryConfig where
  "CMOSEntryString = 0x73"

definition CMOSEntryReserved :: CMOSEntryConfig where
  "CMOSEntryReserved = 0x72"

text \<open>
  The struct \<open>CMOSEntry\<close>. The fields \<open>bit\<close> and \<open>length\<close> carry the suffix \<open>_e\<close>,
  since both names are constants of the library.
\<close>

record CMOSEntry =
  bit_e :: uint
  length_e :: uint
  config :: CMOSEntryConfig
  config_id :: uint
  name :: string

definition verifyCMOSEntry :: "CMOSEntry \<Rightarrow> error option" where
  "verifyCMOSEntry e =
     (if bit_e e \<ge> 8 * cmosSize \<or> bit_e e + length_e e > 8 * cmosSize
        then Some EntryOutOfRange
      else if bit_e e mod 8 > 0 \<and> bit_e e div 8 \<noteq> (bit_e e + length_e e - 1) div 8
        then Some EntryUnaligned
      else if config e = CMOSEntryString \<or> config e = CMOSEntryEnum
            \<or> config e = CMOSEntryHex \<or> config e = CMOSEntryReserved
        then None
      else Some EntryInvalidConfig)"

definition verifyCMOSOp :: "CMOSEntry \<Rightarrow> error option" where
  "verifyCMOSOp e =
     (if config e = CMOSEntryReserved then Some EntryReserved
      else if bit_e e < 8 * cmosRTCAreaSize then Some EntryOverlapsRTC
      else if length_e e > 64 \<and> config e \<noteq> CMOSEntryString then Some EntryTooWide
      else verifyCMOSEntry e)"

definition checkAreaOverLap :: "uint \<Rightarrow> uint \<Rightarrow> uint \<Rightarrow> uint \<Rightarrow> bool" where
  "checkAreaOverLap s0 l0 s1 l1 =
     (let e0 = s0 + l0 - 1;
          e1 = s1 + l1 - 1
      in s1 \<le> e0 \<and> s0 \<le> e1)"

definition IsOverlap :: "CMOSEntry \<Rightarrow> CMOSEntry \<Rightarrow> bool" where
  "IsOverlap e e1 = checkAreaOverLap (bit_e e) (length_e e) (bit_e e1) (length_e e1)"

section \<open>The checksum descriptor\<close>

text \<open>The source file is \<^verbatim>\<open>cmos_checksum.go\<close>.\<close>

text \<open>The struct \<open>CMOSChecksum\<close>, in bytes; \<open>end\<close> is a keyword, so the fields carry \<open>_c\<close>.\<close>

record CMOSChecksum =
  start_c :: uint
  end_c :: uint
  index_c :: uint

text \<open>
  \<open>NewCMOSChecksum\<close> takes its three arguments in bits, checks them in the order of the
  source, converts them to bytes and hands the location to \<open>checkAreaOverLap\<close> as the
  source does: with \<open>index\<close> as the start and \<open>index + 1\<close> as the length.
\<close>

definition NewCMOSChecksum :: "uint \<Rightarrow> uint \<Rightarrow> uint \<Rightarrow> error + CMOSChecksum" where
  "NewCMOSChecksum start end' index =
     (if start mod 8 \<noteq> 0 then Inl ChecksumStartNotAligned
      else if end' mod 8 \<noteq> 7 then Inl ChecksumEndNotAligned
      else if index mod 8 \<noteq> 0 then Inl ChecksumLocationNotAligned
      else if end' \<le> start then Inl ChecksumAreaInvalid
      else
        let start = start div 8;
            end' = end' div 8;
            index = index div 8
        in if \<not> verifyCMOSByteIndex start \<or> \<not> verifyCMOSByteIndex end'
             then Inl ChecksumAreaOutOfRange
           else if \<not> verifyCMOSByteIndex index then Inl ChecksumLocationOutOfRange
           else if checkAreaOverLap start (end' - start + 1) index (index + 1)
             then Inl ChecksumOverlapsSummedArea
           else Inr \<lparr>start_c = start, end_c = end', index_c = index\<rparr>)"

section \<open>The byte accessor and the codec\<close>

text \<open>
  The source files are \<^verbatim>\<open>cmos.go\<close> (\<^verbatim>\<open>src/unnamed/part_000\<close>) and
  \<^verbatim>\<open>cmos_hw.go\<close> (the first part of \<^verbatim>\<open>src/unnamed/part_001\<close>).
\<close>

text \<open>
  \<open>CMOSer\<close> is the interface behind which the CMOS bytes live: the hardware ports or a
  mapped file. The model of an accessor is the device it reaches: the byte held at every
  index, and for every index whether the underlying port or file operation fails there
  (\<open>rd_fault\<close> for reads, \<open>wr_fault\<close> for writes), and whether closing it fails.
  \<open>CMOSer_ReadByte\<close> and \<open>CMOSer_WriteByte\<close> follow \<open>CMOSHW.ReadByte\<close> and
  \<open>CMOSHW.WriteByte\<close>: an index outside 14..255 is refused before any port is touched,
  a failing port operation returns its error and leaves the byte as it was.
\<close>

record CMOSer =
  cells :: "uint \<Rightarrow> byte"
  rd_fault :: "uint \<Rightarrow> bool"
  wr_fault :: "uint \<Rightarrow> bool"
  close_fault :: bool

definition CMOSer_ReadByte :: "CMOSer \<Rightarrow> uint \<Rightarrow> error + byte" where
  "CMOSer_ReadByte a off =
     (if \<not> verifyCMOSByteIndex off then Inl ErrInvalidCMOSIndex
      else if rd_fault a off then Inl IOError
      else Inr (cells a off))"

definition CMOSer_WriteByte :: "CMOSer \<Rightarrow> uint \<Rightarrow> byte \<Rightarrow> error + CMOSer" where
  "CMOSer_WriteByte a off b =
     (if \<not> verifyCMOSByteIndex off then Inl ErrInvalidCMOSIndex
      else if wr_fault a off then Inl IOError
      else Inr (a\<lparr>cells := (cells a)(off := b)\<rparr>))"

definition CMOSer_Close :: "CMOSer \<Rightarrow> error option" where
  "CMOSer_Close a = (if close_fault a then Some IOError else None)"

text \<open>
  The struct \<open>CMOS\<close>. Its field \<open>accessor\<close> is a pointer that \<open>Close\<close> sets to nil while
  the device behind it lives on; the model keeps the device in \<open>device\<close> and the fact
  that the pointer is not nil in \<open>accessor_open\<close>.
\<close>

record CMOS =
  device :: CMOSer
  accessor_open :: bool
  checksum :: CMOSChecksum

definition ReadByte :: "CMOS \<Rightarrow> uint \<Rightarrow> error + byte" where
  "ReadByte c off =
     (if \<not> accessor_open c then Inl ErrCMOSNotOpen
      else CMOSer_ReadByte (device c) off)"

definition WriteByte :: "CMOS \<Rightarrow> uint \<Rightarrow> byte \<Rightarrow> error + CMOS" where
  "WriteByte c off b =
     (if \<not> accessor_open c then Inl ErrCMOSNotOpen
      else case CMOSer_WriteByte (device c) off b of
             Inl err \<Rightarrow> Inl err
           | Inr a \<Rightarrow> Inr (c\<lparr>device := a\<rparr>))"

definition CMOS_Close :: "CMOS \<Rightarrow> error option \<times> CMOS" where
  "CMOS_Close c =
     (if accessor_open c then (CMOSer_Close (device c), c\<lparr>accessor_open := False\<rparr>)
      else (None, c))"

text \<open>
  The loop of \<open>WriteEntry\<close>. \<open>src_size\<close> is 8 whenever the loop head is reached: the only
  assignment to it is in the partial-byte branch, which returns. An index into \<open>v\<close> that is
  not below its length is Go's panic. The result is the error, if any, and the CMOS as the
  writes made so far have left it.
\<close>

function WriteEntry_loop :: "CMOS \<Rightarrow> byte list \<Rightarrow> uint \<Rightarrow> uint \<Rightarrow> uint \<Rightarrow> error option \<times> CMOS" where
  "WriteEntry_loop c v src_bit src_bit_remaining dst_bit =
     (if src_bit_remaining > 0 then
        if unat (drop_bit 3 src_bit) \<ge> length v then (Some PanicIndexOutOfRange, c)
        else
          let wvalue = v ! unat (drop_bit 3 src_bit) in
          if 8 > src_bit_remaining then
            let src_size = src_bit_remaining;
                wvalue = drop_bit (unat (src_bit AND 7)) wvalue AND (push_bit (unat src_size) 1 - 1)
            in case ReadByte c (drop_bit 3 dst_bit) of
                 Inl err \<Rightarrow> (Some err, c)
               | Inr n \<Rightarrow>
                   let mask = push_bit (unat (dst_bit AND 7)) (push_bit (unat src_size) 1 - 1);
                       n = (n AND NOT mask) OR (push_bit (unat (dst_bit AND 7)) wvalue AND mask)
                   in (case WriteByte c (drop_bit 3 dst_bit) n of
                         Inl err \<Rightarrow> (Some err, c)
                       | Inr c' \<Rightarrow> (None, c'))
          else
            (case WriteByte c (drop_bit 3 dst_bit) wvalue of
               Inl err \<Rightarrow> (Some err, c)
             | Inr c' \<Rightarrow> WriteEntry_loop c' v (src_bit + 8) (src_bit_remaining - 8) (dst_bit + 8))
      else (None, c))"
  by pat_completeness auto
termination
  by (relation "measure (\<lambda>(c, v, src_bit, src_bit_remaining, dst_bit). unat src_bit_remaining)")
     (auto simp: word_less_nat_alt unat_sub word_le_nat_alt not_less)

definition WriteEntry :: "CMOS \<Rightarrow> CMOSEntry \<Rightarrow> byte list \<Rightarrow> error option \<times> CMOS" where
  "WriteEntry c e v =
     (case verifyCMOSOp e of
        Some err \<Rightarrow> (Some err, c)
      | None \<Rightarrow>
          let src_bit_remaining =
                (if length_e e > of_nat (length v * 8) then of_nat (length v * 8) else length_e e)
          in WriteEntry_loop c v 0 src_bit_remaining (bit_e e))"

text \<open>
  The loop of \<open>ReadEntry\<close>. In the partial-byte branch \<open>src_size\<close> becomes
  \<open>src_bit_remaining\<close>, so after the byte is stored the remaining count is 0 and the loop
  ends; the model returns there. The store \<open>v[dst_bit>>3] = n\<close> panics when the index is
  not below the length of \<open>v\<close>.
\<close>

function ReadEntry_loop :: "CMOS \<Rightarrow> byte list \<Rightarrow> uint \<Rightarrow> uint \<Rightarrow> uint \<Rightarrow> error + byte list" where
  "ReadEntry_loop c v src_bit src_bit_remaining dst_bit =
     (if src_bit_remaining > 0 then
        case ReadByte c (drop_bit 3 src_bit) of
          Inl err \<Rightarrow> Inl err
        | Inr n \<Rightarrow>
            if 8 > src_bit_remaining then
              let src_size = src_bit_remaining;
                  n = drop_bit (unat (src_bit AND 7)) n AND (push_bit (unat src_size) 1 - 1)
              in if unat (drop_bit 3 dst_bit) \<ge> length v then Inl PanicIndexOutOfRange
                 else Inr (v[unat (drop_bit 3 dst_bit) := n])
            else
              if unat (drop_bit 3 dst_bit) \<ge> length v then Inl PanicIndexOutOfRange
              else ReadEntry_loop c (v[unat (drop_bit 3 dst_bit) := n])
                     (src_bit + 8) (src_bit_remaining - 8) (dst_bit + 8)
      else Inr v)"
  by pat_completeness auto
termination
  by (relation "measure (\<lambda>(c, v, src_bit, src_bit_remaining, dst_bit). unat src_bit_remaining)")
     (auto simp: word_less_nat_alt unat_sub word_le_nat_alt not_less)

text \<open>
  \<open>make([]byte, n)\<close> is modelled as \<open>n\<close> zero bytes; the limits of the allocator are outside
  the model.
\<close>

definition ReadEntry :: "CMOS \<Rightarrow> CMOSEntry \<Rightarrow> error + byte list" where
  "ReadEntry c e =
     (case verifyCMOSOp e of
        Some err \<Rightarrow> Inl err
      | None \<Rightarrow>
          let v = (if config e = CMOSEntryString
                   then replicate (unat ((length_e e + 7) div 8)) 0
                   else replicate 8 0)
          in ReadEntry_loop c v (bit_e e) (length_e e) 0)"

text \<open>
  The checksum is read and written big-endian at \<open>index\<close> and \<open>index + 1\<close>.
  \<open>WriteChecksum\<close> returns the CMOS as its writes have left it, also when the second
  write fails after the first.
\<close>

definition ReadChecksum :: "CMOS \<Rightarrow> error + uint16" where
  "ReadChecksum c =
     (case ReadByte c (index_c (checksum c)) of
        Inl err \<Rightarrow> Inl err
      | Inr b0 \<Rightarrow>
          (case ReadByte c (index_c (checksum c) + 1) of
             Inl err \<Rightarrow> Inl err
           | Inr b1 \<Rightarrow> Inr (push_bit 8 (ucast b0) + ucast b1)))"

definition WriteChecksum :: "CMOS \<Rightarrow> uint16 \<Rightarrow> error option \<times> CMOS" where
  "WriteChecksum c csum =
     (case WriteByte c (index_c (checksum c)) (ucast (drop_bit 8 csum)) of
        Inl err \<Rightarrow> (Some err, c)
      | Inr c1 \<Rightarrow>
          (case WriteByte c1 (index_c (checksum c1) + 1) (ucast (csum AND 0xFF)) of
             Inl err \<Rightarrow> (Some err, c1)
           | Inr c2 \<Rightarrow> (None, c2)))"

lemma ReadByte_Inr_index:
  assumes "ReadByte c i = Inr b"
  shows "unat i < 256" and "unat (i + 1) = unat i + 1"
proof -
  from assms have "verifyCMOSByteIndex i"
    by (auto simp: ReadByte_def CMOSer_ReadByte_def split: if_splits)
  then show "unat i < 256"
    by (simp add: verifyCMOSByteIndex_def cmosSize_def word_less_nat_alt)
  then show "unat (i + 1) = unat i + 1"
    by (simp add: unat_word_ariths)
qed

text \<open>
  The loop of \<open>ComputeChecksum\<close>: \<open>for i := start; i <= end; i++\<close>. It goes on only after
  a successful read, and a read succeeds only at an index below 256, so the loop ends.
\<close>

function ComputeChecksum_loop :: "CMOS \<Rightarrow> uint \<Rightarrow> uint16 \<Rightarrow> error + uint16" where
  "ComputeChecksum_loop c i csum =
     (if i \<le> end_c (checksum c) then
        (case ReadByte c i of
           Inl err \<Rightarrow> Inl err
         | Inr b \<Rightarrow> ComputeChecksum_loop c (i + 1) (csum + ucast b))
      else Inr csum)"
  by pat_completeness auto
termination
proof (relation "measure (\<lambda>(c, i, csum). 256 - unat i)")
  fix c :: CMOS and i :: uint and csum :: uint16 and b :: byte
  assume "ReadByte c i = Inr b"
  from ReadByte_Inr_index [OF this]
  show "((c, i + 1, csum + ucast b), (c, i, csum)) \<in> measure (\<lambda>(c, i, csum). 256 - unat i)"
    by simp
qed simp

definition ComputeChecksum :: "CMOS \<Rightarrow> error + uint16" where
  "ComputeChecksum c = ComputeChecksum_loop c (start_c (checksum c)) 0"

section \<open>The layout\<close>

text \<open>The source file is \<^verbatim>\<open>layout.go\<close> (the second part of \<^verbatim>\<open>src/unnamed/part_001\<close>).\<close>

text \<open>
  Go strings are Isabelle strings; \<open>bytes_of\<close> is the conversion \<open>[]byte(s)\<close> and
  \<open>string_of\<close> the conversion \<open>string(v)\<close>.
\<close>

definition bytes_of :: "string \<Rightarrow> byte list" where
  "bytes_of s = map (\<lambda>ch. of_nat (of_char ch)) s"

definition string_of :: "byte list \<Rightarrow> string" where
  "string_of v = map (\<lambda>b. char_of (unat b)) v"

record CMOSEnumItem =
  id_i :: uint
  value_i :: uint
  text_i :: string

record CMOSEnum =
  itos :: "uint \<rightharpoonup> string"
  stoi :: "string \<rightharpoonup> uint"

text \<open>
  The struct \<open>Layout\<close>. \<open>cmosChecksum\<close> is a pointer, nil when \<open>NewCMOSChecksum\<close>
  failed. The entries are never changed once added, so the pointers to them in the map
  and in the list are modelled by the entries themselves.
\<close>

record Layout =
  enums :: "uint \<rightharpoonup> CMOSEnum"
  entries :: "string \<rightharpoonup> CMOSEntry"
  entrieslist :: "CMOSEntry list"
  cmosChecksum :: "CMOSChecksum option"

definition NewLayout :: Layout where
  "NewLayout =
     \<lparr>enums = Map.empty, entries = Map.empty, entrieslist = [],
      cmosChecksum = (case NewCMOSChecksum 392 1007 1008 of Inl err \<Rightarrow> None | Inr c \<Rightarrow> Some c)\<rparr>"

text \<open>
  The position loop of \<open>AddCMOSEntry\<close>: \<open>pos\<close> starts at 0; every iteration first sets
  \<open>pos = i\<close> and then breaks when the new entry starts below entry \<open>i\<close>. The arguments are
  the new entry's bit, the entries not yet visited, the index \<open>i\<close> of the first of them,
  and \<open>pos\<close> so far.
\<close>

fun AddCMOSEntry_pos :: "uint \<Rightarrow> CMOSEntry list \<Rightarrow> nat \<Rightarrow> nat \<Rightarrow> nat" where
  "AddCMOSEntry_pos b [] i pos = pos"
| "AddCMOSEntry_pos b (e # es) i pos =
     (if b < bit_e e then i else AddCMOSEntry_pos b es (i + 1) i)"

text \<open>
  \<open>AddCMOSEntry\<close>: the overlap checks look at the entries at \<open>pos - 1\<close> and \<open>pos\<close> only;
  the three statements that insert put the new entry in front of the entry at \<open>pos\<close>.
\<close>

definition AddCMOSEntry :: "Layout \<Rightarrow> CMOSEntry \<Rightarrow> error option \<times> Layout" where
  "AddCMOSEntry l entry =
     (case verifyCMOSEntry entry of
        Some err \<Rightarrow> (Some err, l)
      | None \<Rightarrow>
          let pos = AddCMOSEntry_pos (bit_e entry) (entrieslist l) 0 0 in
          if length (entrieslist l) > 0 \<and> pos > 0 \<and> IsOverlap entry (entrieslist l ! (pos - 1))
            then (Some EntryOverlaps, l)
          else if length (entrieslist l) > 0 \<and> IsOverlap entry (entrieslist l ! pos)
            then (Some EntryOverlaps, l)
          else (None, l\<lparr>entrieslist := take pos (entrieslist l) @ entry # drop pos (entrieslist l),
                         entries := (entries l)(name entry \<mapsto> entry)\<rparr>))"

definition GetCMOSEntriesList :: "Layout \<Rightarrow> CMOSEntry list" where
  "GetCMOSEntriesList l = entrieslist l"

definition FindCMOSEntry :: "Layout \<Rightarrow> string \<Rightarrow> CMOSEntry option" where
  "FindCMOSEntry l nm = entries l nm"

definition AddCMOSEnum :: "Layout \<Rightarrow> CMOSEnumItem \<Rightarrow> Layout" where
  "AddCMOSEnum l item =
     (let enum = (case enums l (id_i item) of
                    None \<Rightarrow> \<lparr>itos = Map.empty, stoi = Map.empty\<rparr>
                  | Some enum \<Rightarrow> enum)
      in l\<lparr>enums := (enums l)(id_i item \<mapsto>
              enum\<lparr>itos := (itos enum)(value_i item \<mapsto> text_i item),
                   stoi := (stoi enum)(text_i item \<mapsto> value_i item)\<rparr>)\<rparr>)"

definition FindCMOSEnumText :: "Layout \<Rightarrow> uint \<Rightarrow> uint \<Rightarrow> string option" where
  "FindCMOSEnumText l ident val =
     (case enums l ident of None \<Rightarrow> None | Some enum \<Rightarrow> itos enum val)"

definition FindCMOSEnumValue :: "Layout \<Rightarrow> uint \<Rightarrow> string \<Rightarrow> uint option" where
  "FindCMOSEnumValue l ident txt =
     (case enums l ident of None \<Rightarrow> None | Some enum \<Rightarrow> stoi enum txt)"

section \<open>The session\<close>

text \<open>The source file is \<^verbatim>\<open>nvram.go\<close>.\<close>

text \<open>
  \<open>encoding/binary\<close>'s little-endian \<open>PutUint64\<close> and \<open>Uint64\<close>, as the Go library
  documents them; \<open>Uint64\<close> panics on a slice shorter than 8 bytes.
\<close>

definition PutUint64 :: "uint \<Rightarrow> byte list" where
  "PutUint64 n =
     [ucast n, ucast (drop_bit 8 n), ucast (drop_bit 16 n), ucast (drop_bit 24 n),
      ucast (drop_bit 32 n), ucast (drop_bit 40 n), ucast (drop_bit 48 n), ucast (drop_bit 56 n)]"

definition Uint64 :: "byte list \<Rightarrow> error + uint" where
  "Uint64 b =
     (if length b < 8 then Inl PanicIndexOutOfRange
      else Inr (ucast (b ! 0) OR push_bit 8 (ucast (b ! 1)) OR push_bit 16 (ucast (b ! 2))
                OR push_bit 24 (ucast (b ! 3)) OR push_bit 32 (ucast (b ! 4))
                OR push_bit 40 (ucast (b ! 5)) OR push_bit 48 (ucast (b ! 6))
                OR push_bit 56 (ucast (b ! 7))))"

text \<open>
  A parameter value is an \<open>interface{}\<close>: a string, a \<open>uint64\<close>, or a value of any other
  dynamic type.
\<close>

datatype parameter = VString string | VUint64 uint | VOther

text \<open>
  The struct \<open>NVRAM\<close>; \<open>layout\<close> is the embedded pointer \<open>*Layout\<close>. The package-level
  \<open>lockstate\<close> is passed to \<open>Open\<close> and \<open>Close\<close> and returned by them.
\<close>

record NVRAM =
  cmos :: CMOS
  layout :: "Layout option"
  modified :: bool

text \<open>
  What \<open>Open\<close> finds on the machine: the result of each of the three layout loaders (the
  layout pointer and the error they return) and of opening each of the two accessors.
\<close>

record Env =
  ReadLayoutFromCoreBootTable :: "Layout option \<times> error option"
  ReadLayoutFromCMOSTableBinary :: "string \<Rightarrow> Layout option \<times> error option"
  ReadLayoutFromTextFile :: "string \<Rightarrow> Layout option \<times> error option"
  CMOSHW_Open :: "error + CMOSer"
  CMOSMem_Open :: "string \<Rightarrow> error + CMOSer"

text \<open>\<open>CMOS.Open\<close> and \<open>CMOS.OpenMem\<close> close first, ignoring the result.\<close>

definition CMOS_Open :: "Env \<Rightarrow> CMOS \<Rightarrow> error option \<times> CMOS" where
  "CMOS_Open env c =
     (let c = snd (CMOS_Close c) in
      case CMOSHW_Open env of
        Inl err \<Rightarrow> (Some err, c)
      | Inr a \<Rightarrow> (None, c\<lparr>device := a, accessor_open := True\<rparr>))"

definition CMOS_OpenMem :: "Env \<Rightarrow> CMOS \<Rightarrow> string \<Rightarrow> error option \<times> CMOS" where
  "CMOS_OpenMem env c filename =
     (let c = snd (CMOS_Close c) in
      case CMOSMem_Open env filename of
        Inl err \<Rightarrow> (Some err, c)
      | Inr a \<Rightarrow> (None, c\<lparr>device := a, accessor_open := True\<rparr>))"

text \<open>
  \<open>Open\<close>: the compare-and-swap claims the lock; each later \<open>return\<close> of the source
  returns with \<open>lockstate\<close> as it is then.
\<close>

definition Open :: "Env \<Rightarrow> string list \<Rightarrow> 32 word \<Rightarrow> NVRAM \<Rightarrow> error option \<times> 32 word \<times> NVRAM" where
  "Open env args lockstate nv =
     (if lockstate \<noteq> 0 then (Some ErrNVRAMAccessInUse, lockstate, nv)
      else
        let lockstate = 1;
            layoutFileName = (if length args > 0 then args ! 0 else []);
            cmosMemFileName = (if length args > 1 then args ! 1 else []);
            (lay, err) = (if layoutFileName = [] then ReadLayoutFromCoreBootTable env
                          else if suffix ''.bin'' layoutFileName
                            then ReadLayoutFromCMOSTableBinary env layoutFileName
                          else ReadLayoutFromTextFile env layoutFileName);
            nv = nv\<lparr>layout := lay\<rparr>
        in case err of
             Some e \<Rightarrow> (Some e, lockstate, nv)
           | None \<Rightarrow>
               let (err, c) = (if cmosMemFileName = [] then CMOS_Open env (cmos nv)
                               else CMOS_OpenMem env (cmos nv) cmosMemFileName);
                   nv = nv\<lparr>cmos := c\<rparr>
               in (case err of
                     Some e \<Rightarrow> (Some e, lockstate, nv)
                   | None \<Rightarrow>
                       (case layout nv of
                          None \<Rightarrow> (Some PanicNilPointer, lockstate, nv)
                        | Some l \<Rightarrow>
                            (case cmosChecksum l of
                               None \<Rightarrow> (Some PanicNilPointer, lockstate, nv)
                             | Some d \<Rightarrow> (None, lockstate, nv\<lparr>cmos := c\<lparr>checksum := d\<rparr>\<rparr>)))))"

text \<open>
  \<open>Close\<close>: the deferred store sets \<open>lockstate\<close> to 0 on every path. Inside the \<open>if\<close>,
  \<open>sum, err := ...\<close> declares a new \<open>err\<close>, so the result of the checksum update reaches
  nothing but the test that clears \<open>modified\<close>; the function returns what
  \<open>nv.CMOS.Close()\<close> returns.
\<close>

definition Close :: "32 word \<Rightarrow> NVRAM \<Rightarrow> error option \<times> 32 word \<times> NVRAM" where
  "Close lockstate nv =
     (let nv = (if modified nv then
                  (case ComputeChecksum (cmos nv) of
                     Inl err \<Rightarrow> nv
                   | Inr csum \<Rightarrow>
                       (case WriteChecksum (cmos nv) csum of
                          (Some err, c) \<Rightarrow> nv\<lparr>cmos := c\<rparr>
                        | (None, c) \<Rightarrow> nv\<lparr>cmos := c, modified := False\<rparr>))
                else nv);
          (err, c) = CMOS_Close (cmos nv)
      in (err, 0, nv\<lparr>cmos := c\<rparr>))"

definition ValidateChecksum :: "NVRAM \<Rightarrow> error option" where
  "ValidateChecksum nv =
     (case ComputeChecksum (cmos nv) of
        Inl err \<Rightarrow> Some err
      | Inr computed_sum \<Rightarrow>
          (case ReadChecksum (cmos nv) of
             Inl err \<Rightarrow> Some err
           | Inr stored_sum \<Rightarrow>
               if computed_sum \<noteq> stored_sum then Some ChecksumBad else None))"

text \<open>
  \<open>WriteCMOSParameter\<close>. A failed type assertion leaves the zero value in \<open>s\<close> or \<open>n\<close> and
  assigns an error to \<open>err\<close>; the source does not return there, and the final
  \<open>err = nv.CMOS.WriteEntry(e, v)\<close> overwrites it, so the assigned error (\<open>err0\<close> below)
  is never read. \<open>copy(v, []byte(s))\<close> copies as many bytes as fit.
\<close>

definition WriteCMOSParameter :: "NVRAM \<Rightarrow> string \<Rightarrow> parameter \<Rightarrow> error option \<times> NVRAM" where
  "WriteCMOSParameter nv nm val =
     (case layout nv of
        None \<Rightarrow> (Some PanicNilPointer, nv)
      | Some l \<Rightarrow>
          (case FindCMOSEntry l nm of
             None \<Rightarrow> (Some ParameterNotFound, nv)
           | Some e \<Rightarrow>
               if nm = ''check_sum'' then (Some ParameterNotFound, nv)
               else
                 let r =
                   (if config e = CMOSEntryString then
                      let (s, err0) = (case val of VString s \<Rightarrow> (s, None)
                                       | _ \<Rightarrow> ([], Some StringValueRequired))
                      in if length_e e < of_nat (length s * 8) then Inl ValueTooWide
                         else let n = unat ((length_e e + 7) div 8)
                              in Inr (take n (bytes_of s) @ replicate (n - length s) 0)
                    else if config e = CMOSEntryEnum then
                      let (s, err0) = (case val of VString s \<Rightarrow> (s, None)
                                       | _ \<Rightarrow> ([], Some StringValueRequired))
                      in (case FindCMOSEnumValue l (config_id e) s of
                            None \<Rightarrow> Inl BadEnumValue
                          | Some n \<Rightarrow>
                              if length_e e < 64 \<and> n \<ge> push_bit (unat (length_e e)) 1
                                then Inl EnumValueTooWide
                              else Inr (PutUint64 n))
                    else if config e = CMOSEntryHex then
                      let (n, err0) = (case val of VUint64 n \<Rightarrow> (n, None)
                                       | _ \<Rightarrow> (0, Some Uint64ValueRequired))
                      in if length_e e < 64 \<and> n \<ge> push_bit (unat (length_e e)) 1
                           then Inl ValueTooWide
                         else Inr (PutUint64 n)
                    else Inr [])
                 in (case r of
                       Inl err \<Rightarrow> (Some err, nv)
                     | Inr v \<Rightarrow>
                         (case WriteEntry (cmos nv) e v of
                            (Some err, c) \<Rightarrow> (Some err, nv\<lparr>cmos := c\<rparr>)
                          | (None, c) \<Rightarrow> (None, nv\<lparr>cmos := c, modified := True\<rparr>)))))"

text \<open>
  The byte buffer \<open>WriteCMOSParameter\<close> builds from a value of the right type (a string
  copied into a zeroed buffer of \<open>(length + 7) / 8\<close> bytes, a number as 8 little-endian
  bytes), and the value \<open>ReadCMOSParameter\<close> makes of the buffer \<open>ReadEntry\<close> returns: the
  bytes as a string for a String entry, the little-endian number for an Enum or Hex entry
  (which for an Enum entry is then looked up in the enumeration).
\<close>

definition encode_value :: "CMOSEntry \<Rightarrow> parameter \<Rightarrow> byte list" where
  "encode_value e x =
     (case x of
        VString s \<Rightarrow>
          (let n = unat ((length_e e + 7) div 8)
           in take n (bytes_of s) @ replicate (n - length s) 0)
      | VUint64 n \<Rightarrow> PutUint64 n
      | VOther \<Rightarrow> [])"

definition decode_value :: "CMOSEntry \<Rightarrow> byte list \<Rightarrow> error + parameter" where
  "decode_value e v =
     (if config e = CMOSEntryString then Inr (VString (string_of v))
      else if config e = CMOSEntryEnum \<or> config e = CMOSEntryHex then
        (case Uint64 v of Inl err \<Rightarrow> Inl err | Inr n \<Rightarrow> Inr (VUint64 n))
      else Inl EntryInvalidConfig)"

section \<open>Predicates of the properties\<close>

text \<open>
  An operable entry: \<open>verifyCMOSOp\<close> accepts it, and its range invariant
  \<open>bit + length \<le> 2048\<close> holds of the numbers themselves, not only of their 64-bit sum.
\<close>

definition operable :: "CMOSEntry \<Rightarrow> bool" where
  "operable e \<longleftrightarrow> verifyCMOSOp e = None \<and> unat (bit_e e) + unat (length_e e) \<le> 2048"

text \<open>The accessor is open and no read or write of the device fails.\<close>

definition accessor_ok :: "CMOS \<Rightarrow> bool" where
  "accessor_ok c \<longleftrightarrow>
     accessor_open c \<and> (\<forall>i. \<not> rd_fault (device c) i) \<and> (\<forall>i. \<not> wr_fault (device c) i)"

text \<open>Bit \<open>p\<close> of the CMOS region: bit \<open>p mod 8\<close> of byte \<open>p div 8\<close>.\<close>

definition cmos_bit :: "CMOS \<Rightarrow> nat \<Rightarrow> bool" where
  "cmos_bit c p = bit (cells (device c) (of_nat (p div 8))) (p mod 8)"

text \<open>
  A value that fits an entry, by the width checks of \<open>WriteCMOSParameter\<close>: a string of at
  most \<open>length / 8\<close> bytes for a String entry, a number below \<open>2 ^ length\<close> (any number
  when the length is 64) for an Enum or Hex entry.
\<close>

definition representable :: "CMOSEntry \<Rightarrow> parameter \<Rightarrow> bool" where
  "representable e x =
     (case x of
        VString s \<Rightarrow> config e = CMOSEntryString \<and> 8 * length s \<le> unat (length_e e)
      | VUint64 n \<Rightarrow>
          (config e = CMOSEntryEnum \<or> config e = CMOSEntryHex)
          \<and> (length_e e < 64 \<longrightarrow> n < push_bit (unat (length_e e)) 1)
      | VOther \<Rightarrow> False)"

text \<open>
  A value as its field holds it: a string followed by the NUL bytes that fill the
  \<open>(length + 7) / 8\<close> bytes of the field, a number as it is.
\<close>

definition padded_value :: "CMOSEntry \<Rightarrow> parameter \<Rightarrow> parameter" where
  "padded_value e x =
     (case x of
        VString s \<Rightarrow> VString (s @ replicate (unat ((length_e e + 7) div 8) - length s) (CHR 0x00))
      | VUint64 n \<Rightarrow> VUint64 n
      | VOther \<Rightarrow> VOther)"

text \<open>
  Every byte access of the checksum update that \<open>Close\<close> makes succeeds: the sum is
  computed and both bytes are written.
\<close>

definition checksum_update_ok :: "CMOS \<Rightarrow> bool" where
  "checksum_update_ok c =
     (case ComputeChecksum c of
        Inl err \<Rightarrow> False
      | Inr csum \<Rightarrow> fst (WriteChecksum c csum) = None)"

text \<open>
  Any two items of one enumeration have the same value exactly when they have the same
  text.
\<close>

definition enum_items_consistent :: "CMOSEnumItem list \<Rightarrow> bool" where
  "enum_items_consistent items \<longleftrightarrow>
     (\<forall>a \<in> set items. \<forall>b \<in> set items.
        id_i a = id_i b \<longrightarrow> (value_i a = value_i b \<longleftrightarrow> text_i a = text_i b))"

text \<open>
  The condition the specification gives for a checksum descriptor, on the three arguments
  in bits: alignment, a non-empty area, the three byte offsets within 14..255, and the
  summed bytes disjoint from the two bytes of the checksum.
\<close>

definition checksum_spec_ok :: "uint \<Rightarrow> uint \<Rightarrow> uint \<Rightarrow> bool" where
  "checksum_spec_ok start end' index \<longleftrightarrow>
     start mod 8 = 0 \<and> end' mod 8 = 7 \<and> index mod 8 = 0 \<and> end' > start
     \<and> verifyCMOSByteIndex (start div 8) \<and> verifyCMOSByteIndex (end' div 8)
     \<and> verifyCMOSByteIndex (index div 8)
     \<and> (end' div 8 < index div 8 \<or> index div 8 + 1 < start div 8)"

section \<open>Fixtures\<close>

text \<open>
  A device without faults whose bytes are all \<open>0xF0\<close>, an open CMOS on it with the default
  checksum descriptor, and a layout with the Hex entry \<open>speed\<close> at bit 120, 8 bits wide.
\<close>

definition fixture_device :: CMOSer where
  "fixture_device =
     \<lparr>cells = (\<lambda>i. 0xF0), rd_fault = (\<lambda>i. False), wr_fault = (\<lambda>i. False), close_fault = False\<rparr>"

definition fixture_cmos :: CMOS where
  "fixture_cmos =
     \<lparr>device = fixture_device, accessor_open = True,
      checksum = \<lparr>start_c = 49, end_c = 125, index_c = 126\<rparr>\<rparr>"

definition fixture_layout :: Layout where
  "fixture_layout =
     snd (AddCMOSEntry NewLayout
            \<lparr>bit_e = 120, length_e = 8, config = CMOSEntryHex, config_id = 0, name = ''speed''\<rparr>)"

definition fixture_session :: NVRAM where
  "fixture_session = \<lparr>cmos = fixture_cmos, layout = Some fixture_layout, modified = False\<rparr>"

section \<open>Auxiliary facts\<close>

declare WriteEntry_loop.simps [simp del]

declare ReadEntry_loop.simps [simp del]

declare ComputeChecksum_loop.simps [simp del]

subsection \<open>Words, bits and bytes\<close>

lemma unat_drop_bit3: "unat (drop_bit 3 (w::uint)) = unat w div 8"
  by (simp add: unat_drop_bit_eq drop_bit_eq_div unat_div_distrib)

lemma seven_mask: "(7::uint) = mask 3"
  by (simp add: mask_eq_exp_minus_1)

lemma unat_and7: "unat (w AND 7 :: uint) = unat w mod 8"
proof -
  have "w AND 7 = take_bit 3 w"
    by (simp only: seven_mask take_bit_eq_mask)
  then show ?thesis
    by (simp add: unsigned_take_bit_eq take_bit_eq_mod unat_mod_distrib)
qed

lemma low_mask: "push_bit r (1::byte) - 1 = mask r"
  by (simp add: mask_eq_exp_minus_1 push_bit_eq_mult)

lemma unat_plus8: "unat (w::uint) \<le> 2048 \<Longrightarrow> unat (w + 8) = unat w + 8"
  by (simp add: unat_word_ariths)

lemma unat_minus8: "\<not> (w::uint) < 8 \<Longrightarrow> unat (w - 8) = unat w - 8"
  by (simp add: unat_sub word_le_nat_alt not_less)

lemma unat_len8:
  assumes "unat (l::uint) \<le> 2048"
  shows "unat ((l + 7) div 8) = (unat l + 7) div 8"
proof -
  have "unat (l + 7) = unat l + 7"
    using assms by (simp add: unat_word_ariths)
  then show ?thesis by (simp add: unat_div_distrib)
qed

lemma of_nat_div8: "of_nat (unat (w::uint) div 8) = drop_bit 3 w"
  by (simp add: word_unat_eq_iff unat_drop_bit3 le_unat_uoi [of _ w])

lemma div8_range: "112 \<le> (n::nat) \<Longrightarrow> n < 2048 \<Longrightarrow> 14 \<le> n div 8 \<and> n div 8 < 256"
  by arith

lemma span_one_byte:
  fixes B L :: nat
  assumes "B div 8 = (B + L - 1) div 8"
  shows "B mod 8 + L \<le> 8"
proof -
  define x q where "x = B + L - 1" and "q = B div 8"
  have "x = 8 * (x div 8) + x mod 8" by simp
  moreover have "x mod 8 < 8" by simp
  moreover have "x div 8 = q" using assms by (simp add: x_def q_def)
  ultimately have "x < 8 * q + 8" by linarith
  moreover have "B = 8 * q + B mod 8" by (simp add: q_def)
  ultimately show ?thesis unfolding x_def by linarith
qed

lemma bit_merge:
  "bit ((n AND NOT (push_bit s (mask r))) OR (push_bit s w AND push_bit s (mask r)) :: byte) j
     \<longleftrightarrow> (if s \<le> j \<and> j < s + r \<and> j < 8 then bit w (j - s) else bit n j)"
  by (auto simp: bit_simps dest: bit_imp_le_length)

lemma bit_extract:
  "bit (drop_bit s n AND mask r :: byte) j \<longleftrightarrow> j < r \<and> bit n (s + j)"
  by (auto simp: bit_simps dest: bit_imp_le_length)

lemma not_bit_above:
  fixes n :: uint
  assumes "n < push_bit l 1" and "l \<le> m"
  shows "\<not> bit n m"
proof -
  from assms(1) have "n < 2 ^ l" by (simp add: push_bit_eq_mult)
  then have "n AND mask l = n" by (rule less_mask_eq)
  then have "bit n m = bit (n AND mask l) m" by simp
  also have "\<dots> = False" using assms(2) by (simp add: bit_simps)
  finally show ?thesis by simp
qed

lemma low_byte:
  fixes t :: uint16
  shows "(ucast (t AND 0xFF) :: byte) = ucast t"
proof -
  have m: "(0xFF :: uint16) = mask 8" by (simp add: mask_eq_exp_minus_1)
  have "(ucast (t AND mask 8) :: byte) = ucast t"
    by (rule bit_word_eqI) (auto simp: bit_simps)
  then show ?thesis by (simp only: m)
qed

lemma stored_big_endian:
  fixes t :: uint16
  shows "push_bit 8 (ucast (ucast (drop_bit 8 t) :: byte)) + ucast (ucast (t AND 0xFF) :: byte) = t"
proof -
  have "push_bit 8 (ucast (ucast (drop_bit 8 t) :: byte) :: uint16) + ucast (ucast t :: byte)
        = push_bit 8 (ucast (ucast (drop_bit 8 t) :: byte)) OR ucast (ucast t :: byte)"
    by (rule disjunctive_add_eq_or, rule bit_word_eqI) (auto simp: bit_simps)
  also have "\<dots> = t"
    by (rule bit_word_eqI) (auto simp: bit_simps)
  finally show ?thesis by (simp only: low_byte)
qed

lemma bit_PutUint64:
  assumes "k < 8"
  shows "bit (PutUint64 n ! k) j \<longleftrightarrow> j < 8 \<and> bit n (8 * k + j)"
proof -
  from assms consider "k = 0" | "k = 1" | "k = 2" | "k = 3" | "k = 4" | "k = 5" | "k = 6" | "k = 7"
    by linarith
  then show ?thesis
    by cases (auto simp: PutUint64_def bit_simps)
qed

lemma Uint64_PutUint64: "Uint64 (PutUint64 n) = Inr n"
proof -
  have "ucast (PutUint64 n ! 0) OR push_bit 8 (ucast (PutUint64 n ! 1))
          OR push_bit 16 (ucast (PutUint64 n ! 2)) OR push_bit 24 (ucast (PutUint64 n ! 3))
          OR push_bit 32 (ucast (PutUint64 n ! 4)) OR push_bit 40 (ucast (PutUint64 n ! 5))
          OR push_bit 48 (ucast (PutUint64 n ! 6)) OR push_bit 56 (ucast (PutUint64 n ! 7)) = n"
    (is "?w = n")
  proof (rule bit_word_eqI)
    fix m assume m: "m < LENGTH(64)"
    then have m64: "m < 64" by simp
    define k j where "k = m div 8" and "j = m mod 8"
    have mk: "m = 8 * k + j" and j: "j < 8" and k: "k < 8"
      using m64 by (simp_all add: k_def j_def) 
    from k consider "k = 0" | "k = 1" | "k = 2" | "k = 3" | "k = 4" | "k = 5" | "k = 6" | "k = 7"
      by linarith
    then show "bit ?w m = bit n m"
      using j unfolding mk
      by cases (auto simp: bit_simps bit_PutUint64)
  qed
  then show ?thesis
    by (simp add: Uint64_def PutUint64_def)
qed

lemma string_of_bytes_of: "string_of (bytes_of s) = s"
proof -
  have "char_of (unat (of_nat (of_char ch :: nat) :: byte)) = ch" for ch
  proof -
    have "unat (of_nat (of_char ch :: nat) :: byte) = of_char ch mod 256"
      by (simp add: unat_of_nat)
    then show ?thesis by simp
  qed
  then show ?thesis
    by (simp add: string_of_def bytes_of_def comp_def)
qed

lemma string_of_padded:
  "string_of (bytes_of s @ replicate k 0) = s @ replicate k (CHR 0x00)"
proof -
  have "string_of (replicate k 0) = replicate k (CHR 0x00)"
    by (simp add: string_of_def char_of_def)
  moreover have "string_of (u @ w) = string_of u @ string_of w" for u w
    by (simp add: string_of_def)
  ultimately show ?thesis by (simp add: string_of_bytes_of)
qed

lemma kinds_distinct:
  "CMOSEntryEnum \<noteq> CMOSEntryString" "CMOSEntryHex \<noteq> CMOSEntryString"
  "CMOSEntryReserved \<noteq> CMOSEntryString" "CMOSEntryEnum \<noteq> CMOSEntryHex"
  by (simp_all add: CMOSEntryEnum_def CMOSEntryString_def CMOSEntryHex_def CMOSEntryReserved_def)

subsection \<open>Byte accesses\<close>

lemma WriteByte_Inr:
  assumes "WriteByte c i b = Inr c'"
  shows "c' = c\<lparr>device := (device c)\<lparr>cells := (cells (device c))(i := b)\<rparr>\<rparr>"
    and "accessor_open c" and "verifyCMOSByteIndex i" and "\<not> wr_fault (device c) i"
  using assms
  by (auto simp: WriteByte_def CMOSer_WriteByte_def split: if_splits sum.splits)

lemma ReadByte_Inr:
  assumes "ReadByte c i = Inr n"
  shows "n = cells (device c) i"
    and "accessor_open c" and "verifyCMOSByteIndex i" and "\<not> rd_fault (device c) i"
  using assms
  by (auto simp: ReadByte_def CMOSer_ReadByte_def split: if_splits)

lemma byte_index_ok:
  "112 \<le> unat (w::uint) \<Longrightarrow> unat w < 2048 \<Longrightarrow> verifyCMOSByteIndex (drop_bit 3 w)"
  using div8_range [of "unat w"]
  by (simp add: verifyCMOSByteIndex_def cmosRTCAreaSize_def cmosSize_def word_le_nat_alt
      word_less_nat_alt unat_drop_bit3)

lemma ReadByte_ok:
  "accessor_ok c \<Longrightarrow> verifyCMOSByteIndex i \<Longrightarrow> ReadByte c i = Inr (cells (device c) i)"
  by (simp add: accessor_ok_def ReadByte_def CMOSer_ReadByte_def)

lemma WriteByte_ok:
  "accessor_ok c \<Longrightarrow> verifyCMOSByteIndex i
    \<Longrightarrow> WriteByte c i b = Inr (c\<lparr>device := (device c)\<lparr>cells := (cells (device c))(i := b)\<rparr>\<rparr>)"
  by (simp add: accessor_ok_def WriteByte_def CMOSer_WriteByte_def)

lemma accessor_ok_update:
  "accessor_ok c \<Longrightarrow> accessor_ok (c\<lparr>device := (device c)\<lparr>cells := f\<rparr>\<rparr>)"
  by (simp add: accessor_ok_def)

subsection \<open>What an operable entry satisfies\<close>

lemma operable_nat:
  assumes "operable e"
  shows "112 \<le> unat (bit_e e)"
    and "unat (bit_e e) + unat (length_e e) \<le> 2048"
    and "unat (bit_e e) mod 8 = 0 \<or> unat (bit_e e) mod 8 + unat (length_e e) \<le> 8"
    and "config e \<noteq> CMOSEntryString \<Longrightarrow> unat (length_e e) \<le> 64"
proof -
  define B L where "B = unat (bit_e e)" and "L = unat (length_e e)"
  from assms have v: "verifyCMOSOp e = None" and sum: "B + L \<le> 2048"
    by (simp_all add: operable_def B_def L_def)
  from v have rtc: "\<not> bit_e e < 8 * cmosRTCAreaSize"
    and wide: "\<not> (length_e e > 64 \<and> config e \<noteq> CMOSEntryString)"
    and ent: "verifyCMOSEntry e = None"
    by (auto simp: verifyCMOSOp_def split: if_splits)
  from rtc show B112: "112 \<le> unat (bit_e e)"
    by (simp add: cmosRTCAreaSize_def word_less_nat_alt)
  from sum show "unat (bit_e e) + unat (length_e e) \<le> 2048"
    by (simp add: B_def L_def)
  from wide show "config e \<noteq> CMOSEntryString \<Longrightarrow> unat (length_e e) \<le> 64"
    by (auto simp: word_less_nat_alt not_less word_le_nat_alt)
  from ent have al: "\<not> (bit_e e mod 8 > 0 \<and> bit_e e div 8 \<noteq> (bit_e e + length_e e - 1) div 8)"
    by (auto simp: verifyCMOSEntry_def split: if_splits)
  show "unat (bit_e e) mod 8 = 0 \<or> unat (bit_e e) mod 8 + unat (length_e e) \<le> 8"
  proof (cases "B mod 8 = 0")
    case True
    then show ?thesis by (simp add: B_def)
  next
    case False
    then have "bit_e e mod 8 > 0"
      by (simp add: word_less_nat_alt unat_mod_distrib B_def)
    with al have eq: "bit_e e div 8 = (bit_e e + length_e e - 1) div 8" by simp
    have add: "unat (bit_e e + length_e e) = B + L"
      using sum by (simp add: unat_add_lem [THEN iffD1] B_def L_def)
    have "bit_e e + length_e e \<noteq> 0"
      using add B112 by (auto simp: B_def)
    then have "unat (bit_e e + length_e e - 1) = B + L - 1"
      by (simp add: unat_minus_one add)
    from arg_cong [OF eq, of unat] this have "B div 8 = (B + L - 1) div 8"
      by (simp add: unat_div_distrib B_def)
    then have "B mod 8 + L \<le> 8"
      by (rule span_one_byte)
    then show ?thesis by (simp add: B_def L_def)
  qed
qed

subsection \<open>The loop of WriteEntry\<close>

text \<open>One unfolding of the loop for each path through its body.\<close>

lemma WriteEntry_loop_done:
  "\<not> 0 < rem \<Longrightarrow> WriteEntry_loop c v src rem dst = (None, c)"
  by (subst WriteEntry_loop.simps) simp

lemma WriteEntry_loop_panic:
  "0 < rem \<Longrightarrow> length v \<le> unat (drop_bit 3 src)
    \<Longrightarrow> WriteEntry_loop c v src rem dst = (Some PanicIndexOutOfRange, c)"
  by (subst WriteEntry_loop.simps) simp

lemma WriteEntry_loop_whole:
  "0 < rem \<Longrightarrow> \<not> length v \<le> unat (drop_bit 3 src) \<Longrightarrow> \<not> rem < 8
    \<Longrightarrow> WriteEntry_loop c v src rem dst =
       (case WriteByte c (drop_bit 3 dst) (v ! unat (drop_bit 3 src)) of
          Inl err \<Rightarrow> (Some err, c)
        | Inr c' \<Rightarrow> WriteEntry_loop c' v (src + 8) (rem - 8) (dst + 8))"
  by (subst WriteEntry_loop.simps) (simp add: Let_def)

lemma WriteEntry_loop_partial:
  "0 < rem \<Longrightarrow> \<not> length v \<le> unat (drop_bit 3 src) \<Longrightarrow> rem < 8
    \<Longrightarrow> WriteEntry_loop c v src rem dst =
       (case ReadByte c (drop_bit 3 dst) of
          Inl err \<Rightarrow> (Some err, c)
        | Inr n \<Rightarrow>
            (case WriteByte c (drop_bit 3 dst)
                    ((n AND NOT (push_bit (unat dst mod 8) (mask (unat rem))))
                      OR (push_bit (unat dst mod 8)
                            (drop_bit (unat src mod 8) (v ! unat (drop_bit 3 src)) AND mask (unat rem))
                          AND push_bit (unat dst mod 8) (mask (unat rem)))) of
               Inl err \<Rightarrow> (Some err, c)
             | Inr c' \<Rightarrow> (None, c')))"
  by (subst WriteEntry_loop.simps) (simp only: Let_def low_mask unat_and7 if_True if_False)

text \<open>
  The loop changes no bit outside the \<open>rem\<close> bits from \<open>dst\<close> on, whatever the buffer
  holds and whether or not a byte access fails on the way.
\<close>

lemma WriteEntry_loop_frame:
  assumes "WriteEntry_loop c v src rem dst = (r, c')"
    and "unat dst + unat rem \<le> 2048"
    and "unat dst mod 8 = 0 \<or> unat dst mod 8 + unat rem \<le> 8"
    and "j < 8"
    and "8 * unat i + j < unat dst \<or> unat dst + unat rem \<le> 8 * unat i + j"
  shows "bit (cells (device c') i) j = bit (cells (device c) i) j"
  using assms
proof (induction "unat rem" arbitrary: c src rem dst rule: less_induct)
  case less
  note run = less.prems(1)
  consider (stop) "\<not> 0 < rem \<or> length v \<le> unat (drop_bit 3 src)"
    | (partial) "0 < rem" "\<not> length v \<le> unat (drop_bit 3 src)" "rem < 8"
    | (whole) "0 < rem" "\<not> length v \<le> unat (drop_bit 3 src)" "\<not> rem < 8"
    by blast
  then show ?case
  proof cases
    case stop
    with run have "c' = c"
      by (cases "0 < rem") (auto simp: WriteEntry_loop_done WriteEntry_loop_panic)
    then show ?thesis by simp
  next
    case partial
    note step = run [unfolded WriteEntry_loop_partial [OF partial]]
    from partial(3) have R: "unat rem < 8" by (simp add: word_less_nat_alt)
    show ?thesis
    proof (cases "ReadByte c (drop_bit 3 dst)")
      case (Inl err)
      with step have "c' = c" by simp
      then show ?thesis by simp
    next
      case rd: (Inr n)
      define n' where "n' = (n AND NOT (push_bit (unat dst mod 8) (mask (unat rem))))
          OR (push_bit (unat dst mod 8)
               (drop_bit (unat src mod 8) (v ! unat (drop_bit 3 src)) AND mask (unat rem))
              AND push_bit (unat dst mod 8) (mask (unat rem)))"
      show ?thesis
      proof (cases "WriteByte c (drop_bit 3 dst) n'")
        case (Inl err)
        with step rd have "c' = c" by (simp add: n'_def)
        then show ?thesis by simp
      next
        case wr: (Inr c1)
        with step rd have c': "c' = c1" by (simp add: n'_def)
        have cells: "cells (device c1) = (cells (device c))(drop_bit 3 dst := n')"
          using WriteByte_Inr(1) [OF wr] by simp
        have n: "n = cells (device c) (drop_bit 3 dst)"
          using ReadByte_Inr(1) [OF rd] .
        show ?thesis
        proof (cases "i = drop_bit 3 dst")
          case False
          then show ?thesis by (simp add: c' cells)
        next
          case True
          then have i: "unat i = unat dst div 8" by (simp add: unat_drop_bit3)
          define q s where "q = unat dst div 8" and "s = unat dst mod 8"
          have D: "unat dst = 8 * q + s" by (simp add: q_def s_def)
          have iq: "unat i = q" by (simp add: i q_def)
          from less.prems(5) have "j < s \<or> s + unat rem \<le> j"
            unfolding iq D by linarith
          then have out: "\<not> (unat dst mod 8 \<le> j \<and> j < unat dst mod 8 + unat rem \<and> j < 8)"
            unfolding s_def [symmetric] by linarith
          have "bit n' j = bit n j"
            unfolding n'_def bit_merge by (simp only: out if_False)
          then show ?thesis by (simp add: c' cells True n)
        qed
      qed
    qed
  next
    case whole
    note step = run [unfolded WriteEntry_loop_whole [OF whole]]
    from whole(3) have R: "8 \<le> unat rem" by (simp add: word_less_nat_alt not_less)
    with less.prems(3) have al: "unat dst mod 8 = 0" by auto
    show ?thesis
    proof (cases "WriteByte c (drop_bit 3 dst) (v ! unat (drop_bit 3 src))")
      case (Inl err)
      with step have "c' = c" by simp
      then show ?thesis by simp
    next
      case wr: (Inr c1)
      with step have rest: "WriteEntry_loop c1 v (src + 8) (rem - 8) (dst + 8) = (r, c')"
        by simp
      have cells: "cells (device c1) = (cells (device c))(drop_bit 3 dst := v ! unat (drop_bit 3 src))"
        using WriteByte_Inr(1) [OF wr] by simp
      have d8: "unat (dst + 8) = unat dst + 8"
        using less.prems(2) by (simp add: unat_plus8)
      have r8: "unat (rem - 8) = unat rem - 8"
        using whole(3) by (rule unat_minus8)
      have pos: "8 * unat i + j < unat dst \<or> unat dst + 8 \<le> 8 * unat i + j"
        using less.prems(5) R by linarith
      have ne: "i \<noteq> drop_bit 3 dst"
      proof
        assume "i = drop_bit 3 dst"
        then have i: "unat i = unat dst div 8" by (simp add: unat_drop_bit3)
        define q where "q = unat dst div 8"
        have D: "unat dst = 8 * q" using al by (auto simp: q_def)
        have iq: "unat i = q" by (simp add: i q_def)
        from pos less.prems(4) show False
          unfolding iq D by linarith
      qed
      have "bit (cells (device c') i) j = bit (cells (device c1) i) j"
      proof (rule less.hyps [OF _ rest])
        show "unat (rem - 8) < unat rem" using R by (simp add: r8)
        show "unat (dst + 8) + unat (rem - 8) \<le> 2048" using less.prems(2) R by (simp add: d8 r8)
        show "unat (dst + 8) mod 8 = 0 \<or> unat (dst + 8) mod 8 + unat (rem - 8) \<le> 8"
          using al by (simp add: d8)
        show "j < 8" by fact
        show "8 * unat i + j < unat (dst + 8) \<or> unat (dst + 8) + unat (rem - 8) \<le> 8 * unat i + j"
          using less.prems(5) R pos by (simp add: d8 r8) linarith
      qed
      also have "\<dots> = bit (cells (device c) i) j"
        using ne by (simp add: cells)
      finally show ?thesis .
    qed
  qed
qed

text \<open>The loop touches nothing of the CMOS but the bytes of the device.\<close>

lemma WriteEntry_loop_state:
  assumes "WriteEntry_loop c v src rem dst = (r, c')"
  shows "accessor_open c' = accessor_open c \<and> checksum c' = checksum c
       \<and> rd_fault (device c') = rd_fault (device c) \<and> wr_fault (device c') = wr_fault (device c)
       \<and> close_fault (device c') = close_fault (device c)"
  using assms
proof (induction "unat rem" arbitrary: c src rem dst rule: less_induct)
  case less
  note run = less.prems(1)
  consider (stop) "\<not> 0 < rem \<or> length v \<le> unat (drop_bit 3 src)"
    | (partial) "0 < rem" "\<not> length v \<le> unat (drop_bit 3 src)" "rem < 8"
    | (whole) "0 < rem" "\<not> length v \<le> unat (drop_bit 3 src)" "\<not> rem < 8"
    by blast
  then show ?case
  proof cases
    case stop
    with run have "c' = c"
      by (cases "0 < rem") (auto simp: WriteEntry_loop_done WriteEntry_loop_panic)
    then show ?thesis by simp
  next
    case partial
    from run [unfolded WriteEntry_loop_partial [OF partial]] show ?thesis
      by (auto split: sum.splits dest!: WriteByte_Inr(1))
  next
    case whole
    note step = run [unfolded WriteEntry_loop_whole [OF whole]]
    show ?thesis
    proof (cases "WriteByte c (drop_bit 3 dst) (v ! unat (drop_bit 3 src))")
      case (Inl err)
      with step show ?thesis by simp
    next
      case wr: (Inr c1)
      with step have rest: "WriteEntry_loop c1 v (src + 8) (rem - 8) (dst + 8) = (r, c')"
        by simp
      have "unat (rem - 8) < unat rem"
        using whole(3) by (simp add: unat_minus8 word_less_nat_alt not_less)
      from less.hyps [OF this rest] WriteByte_Inr(1) [OF wr] show ?thesis by simp
    qed
  qed
qed

text \<open>
  With a working accessor the loop ends without an error, and bit \<open>p\<close> of the written
  range holds bit \<open>src + (p - dst)\<close> of the buffer.
\<close>

lemma WriteEntry_loop_ok:
  assumes "accessor_ok c"
    and "112 \<le> unat dst" and "unat dst + unat rem \<le> 2048"
    and "unat dst mod 8 = 0 \<or> unat dst mod 8 + unat rem \<le> 8"
    and "unat src mod 8 = 0" and "unat src + unat rem \<le> 8 * length v"
    and "unat src + unat rem \<le> 2048"
  shows "\<exists>c'. WriteEntry_loop c v src rem dst = (None, c') \<and> accessor_ok c'
           \<and> checksum c' = checksum c
           \<and> (\<forall>i j. j < 8 \<and> unat dst \<le> 8 * unat i + j \<and> 8 * unat i + j < unat dst + unat rem
                 \<longrightarrow> bit (cells (device c') i) j
                      = bit (v ! ((unat src + (8 * unat i + j - unat dst)) div 8))
                            ((unat src + (8 * unat i + j - unat dst)) mod 8))"
  using assms
proof (induction "unat rem" arbitrary: c src rem dst rule: less_induct)
  case less
  define D R S where "D = unat dst" and "R = unat rem" and "S = unat src"
  note defs = D_def R_def S_def
  note pre = less.prems [folded defs]
  show ?case
  proof (cases "0 < rem")
    case False
    then have "unat rem = 0" by (simp add: word_less_nat_alt)
    with False less.prems(1) show ?thesis
      by (auto simp add: WriteEntry_loop_done)
  next
    case pos: True
    then have Rpos: "0 < R" by (simp add: word_less_nat_alt R_def)
    have inb: "\<not> length v \<le> unat (drop_bit 3 src)"
      using pre(5,6) Rpos unfolding unat_drop_bit3 S_def [symmetric] by linarith
    have idx: "verifyCMOSByteIndex (drop_bit 3 dst)"
      using pre(2,3) Rpos by (intro byte_index_ok) (simp_all add: D_def)
    define q s where "q = D div 8" and "s = D mod 8"
    have Dq: "D = 8 * q + s" and s8: "s < 8" by (simp_all add: q_def s_def)
    define t where "t = S div 8"
    have St: "S = 8 * t" using pre(5) by (auto simp: t_def)
    show ?thesis
    proof (cases "rem < 8")
      case True
      then have R8: "R < 8" by (simp add: word_less_nat_alt R_def)
      define n' where "n' = (cells (device c) (drop_bit 3 dst)
                AND NOT (push_bit (unat dst mod 8) (mask (unat rem))))
          OR (push_bit (unat dst mod 8)
               (drop_bit (unat src mod 8) (v ! unat (drop_bit 3 src)) AND mask (unat rem))
              AND push_bit (unat dst mod 8) (mask (unat rem)))"
      define c1 where "c1 = c\<lparr>device := (device c)\<lparr>cells := (cells (device c))(drop_bit 3 dst := n')\<rparr>\<rparr>"
      have run: "WriteEntry_loop c v src rem dst = (None, c1)"
        by (simp add: WriteEntry_loop_partial [OF pos inb True] ReadByte_ok [OF less.prems(1) idx]
            WriteByte_ok [OF less.prems(1) idx] n'_def c1_def)
      have ok1: "accessor_ok c1"
        unfolding c1_def by (rule accessor_ok_update) fact
      have sR: "s + R \<le> 8" using pre(4) R8 unfolding s_def by auto
      have bits: "bit (cells (device c1) i) j
                      = bit (v ! ((S + (8 * unat i + j - D)) div 8)) ((S + (8 * unat i + j - D)) mod 8)"
        if "j < 8" and "D \<le> 8 * unat i + j" and "8 * unat i + j < D + R" for i j
      proof -
        have iq: "unat i = q" using that sR s8 unfolding Dq by linarith
        then have i: "i = drop_bit 3 dst"
          by (simp add: word_unat_eq_iff unat_drop_bit3 q_def D_def)
        have js: "s \<le> j" "j < s + R" using that unfolding iq Dq by linarith+
        have off: "S + (8 * unat i + j - D) = 8 * t + (j - s)"
          using js unfolding iq Dq St by linarith
        have "j - s < 8" using that(1) by linarith
        then have dm: "(8 * t + (j - s)) div 8 = t" "(8 * t + (j - s)) mod 8 = j - s"
          by simp_all
        have "bit n' j = bit (drop_bit (unat src mod 8) (v ! unat (drop_bit 3 src)) AND mask (unat rem)) (j - unat dst mod 8)"
          unfolding n'_def bit_merge using js that(1) by (simp add: s_def D_def R_def)
        also have "\<dots> = bit (v ! t) (j - s)"
        proof -
          have "j - s < unat rem" using js unfolding R_def by linarith
          moreover have "unat src mod 8 = 0" using less.prems(5) .
          ultimately show ?thesis
            by (simp only: bit_extract unat_drop_bit3 t_def S_def s_def D_def add_0 simp_thms)
        qed
        finally have "bit n' j = bit (v ! t) (j - s)" .
        moreover have "bit (cells (device c1) i) j = bit n' j"
          by (simp add: c1_def i)
        ultimately show ?thesis
          unfolding off dm by simp
      qed
      show ?thesis
        using run ok1 bits by (auto simp: c1_def defs)
    next
      case False
      then have R8: "8 \<le> R" by (simp add: word_less_nat_alt not_less R_def)
      with pre(4) have al: "s = 0" unfolding s_def by auto
      define c1 where "c1 = c\<lparr>device := (device c)\<lparr>cells := (cells (device c))(drop_bit 3 dst := v ! unat (drop_bit 3 src))\<rparr>\<rparr>"
      have step: "WriteEntry_loop c v src rem dst = WriteEntry_loop c1 v (src + 8) (rem - 8) (dst + 8)"
        by (simp add: WriteEntry_loop_whole [OF pos inb False] WriteByte_ok [OF less.prems(1) idx] c1_def)
      have ok1: "accessor_ok c1"
        unfolding c1_def by (rule accessor_ok_update) fact
      have d8: "unat (dst + 8) = D + 8"
        using pre(3) unfolding D_def by (simp add: unat_plus8)
      have s8': "unat (src + 8) = S + 8"
        using pre(7) unfolding S_def by (simp add: unat_plus8)
      have r8: "unat (rem - 8) = R - 8"
        unfolding R_def using False by (rule unat_minus8)
      have "\<exists>c'. WriteEntry_loop c1 v (src + 8) (rem - 8) (dst + 8) = (None, c') \<and> accessor_ok c'
           \<and> checksum c' = checksum c1
           \<and> (\<forall>i j. j < 8 \<and> unat (dst + 8) \<le> 8 * unat i + j \<and> 8 * unat i + j < unat (dst + 8) + unat (rem - 8)
                 \<longrightarrow> bit (cells (device c') i) j
                      = bit (v ! ((unat (src + 8) + (8 * unat i + j - unat (dst + 8))) div 8))
                            ((unat (src + 8) + (8 * unat i + j - unat (dst + 8))) mod 8))"
      proof (rule less.hyps [OF _ ok1])
        show "unat (rem - 8) < unat rem" using R8 by (simp add: r8 R_def [symmetric])
        show "112 \<le> unat (dst + 8)" using pre(2) by (simp add: d8)
        show "unat (dst + 8) + unat (rem - 8) \<le> 2048" using pre(3) R8 by (simp add: d8 r8)
        show "unat (dst + 8) mod 8 = 0 \<or> unat (dst + 8) mod 8 + unat (rem - 8) \<le> 8"
          using al by (simp add: d8 s_def)
        show "unat (src + 8) mod 8 = 0" using pre(5) by (simp add: s8')
        show "unat (src + 8) + unat (rem - 8) \<le> 8 * length v" using pre(6) R8 by (simp add: s8' r8)
        show "unat (src + 8) + unat (rem - 8) \<le> 2048" using pre(7) R8 by (simp add: s8' r8)
      qed
      then obtain c' where rest: "WriteEntry_loop c1 v (src + 8) (rem - 8) (dst + 8) = (None, c')"
        and ok': "accessor_ok c'" and cs: "checksum c' = checksum c1"
        and IH: "\<And>i j. j < 8 \<Longrightarrow> D + 8 \<le> 8 * unat i + j \<Longrightarrow> 8 * unat i + j < D + 8 + (R - 8)
                 \<Longrightarrow> bit (cells (device c') i) j
                      = bit (v ! ((S + 8 + (8 * unat i + j - (D + 8))) div 8))
                            ((S + 8 + (8 * unat i + j - (D + 8))) mod 8)"
        unfolding d8 s8' r8 by blast
      have bits: "bit (cells (device c') i) j
                      = bit (v ! ((S + (8 * unat i + j - D)) div 8)) ((S + (8 * unat i + j - D)) mod 8)"
        if "j < 8" and "D \<le> 8 * unat i + j" and "8 * unat i + j < D + R" for i j
      proof (cases "D + 8 \<le> 8 * unat i + j")
        case True
        have "S + 8 + (8 * unat i + j - (D + 8)) = S + (8 * unat i + j - D)"
          using True by linarith
        with IH [OF that(1) True] that(3) R8 show ?thesis by simp
      next
        case False
        have iq: "unat i = q" using that False al unfolding Dq by linarith
        then have i: "i = drop_bit 3 dst"
          by (simp add: word_unat_eq_iff unat_drop_bit3 q_def D_def)
        have "bit (cells (device c') i) j = bit (cells (device c1) i) j"
        proof (rule WriteEntry_loop_frame [OF rest])
          show "unat (dst + 8) + unat (rem - 8) \<le> 2048" using pre(3) R8 by (simp add: d8 r8)
          show "unat (dst + 8) mod 8 = 0 \<or> unat (dst + 8) mod 8 + unat (rem - 8) \<le> 8"
            using al by (simp add: d8 s_def)
          show "j < 8" by fact
          show "8 * unat i + j < unat (dst + 8) \<or> unat (dst + 8) + unat (rem - 8) \<le> 8 * unat i + j"
            using False by (simp add: d8)
        qed
        also have "\<dots> = bit (v ! t) j"
          by (simp add: c1_def i unat_drop_bit3 t_def S_def)
        finally show ?thesis
          using that(1) al unfolding iq Dq St by simp
      qed
      show ?thesis
        using step rest ok' cs bits by (auto simp: c1_def defs)
    qed
  qed
qed

subsection \<open>The loop of ReadEntry\<close>

lemma ReadEntry_loop_done:
  "\<not> 0 < rem \<Longrightarrow> ReadEntry_loop c v src rem dst = Inr v"
  by (subst ReadEntry_loop.simps) simp

lemma ReadEntry_loop_whole:
  "0 < rem \<Longrightarrow> \<not> rem < 8
    \<Longrightarrow> ReadEntry_loop c v src rem dst =
       (case ReadByte c (drop_bit 3 src) of
          Inl err \<Rightarrow> Inl err
        | Inr n \<Rightarrow>
            if length v \<le> unat (drop_bit 3 dst) then Inl PanicIndexOutOfRange
            else ReadEntry_loop c (v[unat (drop_bit 3 dst) := n]) (src + 8) (rem - 8) (dst + 8))"
  by (subst ReadEntry_loop.simps) (simp add: Let_def split: sum.splits)

lemma ReadEntry_loop_partial:
  "0 < rem \<Longrightarrow> rem < 8
    \<Longrightarrow> ReadEntry_loop c v src rem dst =
       (case ReadByte c (drop_bit 3 src) of
          Inl err \<Rightarrow> Inl err
        | Inr n \<Rightarrow>
            if length v \<le> unat (drop_bit 3 dst) then Inl PanicIndexOutOfRange
            else Inr (v[unat (drop_bit 3 dst) := drop_bit (unat src mod 8) n AND mask (unat rem)]))"
  by (subst ReadEntry_loop.simps)
     (cases "ReadByte c (drop_bit 3 src)"; simp only: Let_def low_mask unat_and7 if_True if_False sum.case)

text \<open>
  With a working accessor the loop returns a buffer of the same length in which the
  \<open>rem\<close> bits from \<open>dst\<close> on are the CMOS bits from \<open>src\<close> on, the bits before are
  untouched, and the bits after are zero when they were zero in the buffer given.
\<close>

lemma ReadEntry_loop_ok:
  assumes "accessor_ok c"
    and "112 \<le> unat src" and "unat src + unat rem \<le> 2048"
    and "unat src mod 8 = 0 \<or> unat src mod 8 + unat rem \<le> 8"
    and "unat dst mod 8 = 0" and "unat dst + unat rem \<le> 8 * length vb"
    and "unat dst + unat rem \<le> 2048"
    and "\<forall>k < length vb. unat dst \<le> 8 * k \<longrightarrow> vb ! k = 0"
  shows "\<exists>out. ReadEntry_loop c vb src rem dst = Inr out \<and> length out = length vb
           \<and> (\<forall>k j. k < length vb \<and> j < 8
                 \<longrightarrow> bit (out ! k) j
                      = (if 8 * k + j < unat dst then bit (vb ! k) j
                         else if 8 * k + j < unat dst + unat rem
                           then cmos_bit c (unat src + (8 * k + j - unat dst))
                         else False))"
  using assms
proof (induction "unat rem" arbitrary: vb src rem dst rule: less_induct)
  case less
  define D R T where "D = unat src" and "R = unat rem" and "T = unat dst"
  note defs = D_def R_def T_def
  note pre = less.prems [folded defs]
  define t where "t = T div 8"
  have Tt: "T = 8 * t" using pre(5) by (auto simp: t_def)
  have zero: "bit (vb ! k) j = False" if "k < length vb" "T \<le> 8 * k + j" "j < 8" for k j
  proof -
    have "T \<le> 8 * k" using that unfolding Tt by presburger
    with pre(8) that(1) have "vb ! k = 0" by simp
    then show ?thesis by simp
  qed
  show ?case
  proof (cases "0 < rem")
    case False
    then have "R = 0" by (simp add: word_less_nat_alt R_def)
    with False zero show ?thesis
      by (auto simp add: ReadEntry_loop_done defs)
  next
    case pos: True
    then have Rpos: "0 < R" by (simp add: word_less_nat_alt R_def)
    have inb: "\<not> length vb \<le> unat (drop_bit 3 dst)"
      using pre(5,6) Rpos unfolding unat_drop_bit3 T_def [symmetric] by linarith
    have idx: "verifyCMOSByteIndex (drop_bit 3 src)"
      using pre(2,3) Rpos by (intro byte_index_ok) (simp_all add: D_def)
    define q s where "q = D div 8" and "s = D mod 8"
    have Dq: "D = 8 * q + s" and s8: "s < 8" by (simp_all add: q_def s_def)
    have tlen: "t < length vb" using inb by (simp add: unat_drop_bit3 t_def T_def)
    show ?thesis
    proof (cases "rem < 8")
      case True
      then have R8: "R < 8" by (simp add: word_less_nat_alt R_def)
      have sR: "s + R \<le> 8" using pre(4) R8 unfolding s_def by auto
      define n' where "n' = drop_bit s (cells (device c) (drop_bit 3 src)) AND mask R"
      have run: "ReadEntry_loop c vb src rem dst = Inr (vb[t := n'])"
        using inb
        by (simp add: ReadEntry_loop_partial [OF pos True] ReadByte_ok [OF less.prems(1) idx]
            n'_def unat_drop_bit3 t_def defs s_def)
      have bits: "bit (vb[t := n'] ! k) j
                      = (if 8 * k + j < T then bit (vb ! k) j
                         else if 8 * k + j < T + R then cmos_bit c (D + (8 * k + j - T))
                         else False)"
        if "k < length vb" and "j < 8" for k j
      proof (cases "k = t")
        case False
        then have "8 * k + j < T \<or> T + 8 \<le> 8 * k + j"
          using that(2) unfolding Tt by linarith
        then show ?thesis
          using False R8 zero [OF that(1) _ that(2)] by auto
      next
        case True
        have "bit n' j \<longleftrightarrow> j < R \<and> bit (cells (device c) (drop_bit 3 src)) (s + j)"
          unfolding n'_def by (rule bit_extract)
        moreover have "cmos_bit c (D + j) = bit (cells (device c) (drop_bit 3 src)) (s + j)"
          if "j < R"
        proof -
          have "s + j < 8" using that sR by linarith
          then have "(D + j) div 8 = q" "(D + j) mod 8 = s + j"
            unfolding Dq by (simp_all add: add.assoc)
          then show ?thesis
            by (simp add: cmos_bit_def q_def D_def of_nat_div8)
        qed
        ultimately show ?thesis
          using tlen by (auto simp: True Tt)
      qed
      show ?thesis
        using run bits by (auto simp: defs)
    next
      case False
      then have R8: "8 \<le> R" by (simp add: word_less_nat_alt not_less R_def)
      with pre(4) have al: "s = 0" unfolding s_def by auto
      define n where "n = cells (device c) (drop_bit 3 src)"
      define vb1 where "vb1 = vb[t := n]"
      have step: "ReadEntry_loop c vb src rem dst = ReadEntry_loop c vb1 (src + 8) (rem - 8) (dst + 8)"
        using inb
        by (simp add: ReadEntry_loop_whole [OF pos False] ReadByte_ok [OF less.prems(1) idx]
            n_def vb1_def unat_drop_bit3 t_def defs)
      have d8: "unat (src + 8) = D + 8"
        using pre(3) unfolding D_def by (simp add: unat_plus8)
      have t8: "unat (dst + 8) = T + 8"
        using pre(7) unfolding T_def by (simp add: unat_plus8)
      have r8: "unat (rem - 8) = R - 8"
        unfolding R_def using False by (rule unat_minus8)
      have "\<exists>out. ReadEntry_loop c vb1 (src + 8) (rem - 8) (dst + 8) = Inr out \<and> length out = length vb1
           \<and> (\<forall>k j. k < length vb1 \<and> j < 8
                 \<longrightarrow> bit (out ! k) j
                      = (if 8 * k + j < unat (dst + 8) then bit (vb1 ! k) j
                         else if 8 * k + j < unat (dst + 8) + unat (rem - 8)
                           then cmos_bit c (unat (src + 8) + (8 * k + j - unat (dst + 8)))
                         else False))"
      proof (rule less.hyps [OF _ less.prems(1)])
        show "unat (rem - 8) < unat rem" using R8 by (simp add: r8 R_def [symmetric])
        show "112 \<le> unat (src + 8)" using pre(2) by (simp add: d8)
        show "unat (src + 8) + unat (rem - 8) \<le> 2048" using pre(3) R8 by (simp add: d8 r8)
        show "unat (src + 8) mod 8 = 0 \<or> unat (src + 8) mod 8 + unat (rem - 8) \<le> 8"
          using al by (simp add: d8 s_def)
        show "unat (dst + 8) mod 8 = 0" using pre(5) by (simp add: t8)
        show "unat (dst + 8) + unat (rem - 8) \<le> 8 * length vb1" using pre(6) R8 by (simp add: t8 r8 vb1_def)
        show "unat (dst + 8) + unat (rem - 8) \<le> 2048" using pre(7) R8 by (simp add: t8 r8)
        show "\<forall>k<length vb1. unat (dst + 8) \<le> 8 * k \<longrightarrow> vb1 ! k = 0"
        proof (intro allI impI)
          fix k assume k: "k < length vb1" "unat (dst + 8) \<le> 8 * k"
          then have "k \<noteq> t" "T \<le> 8 * k" unfolding t8 Tt by linarith+
          with pre(8) k(1) show "vb1 ! k = 0" by (simp add: vb1_def)
        qed
      qed
      then obtain out where rest: "ReadEntry_loop c vb1 (src + 8) (rem - 8) (dst + 8) = Inr out"
        and len: "length out = length vb"
        and IH: "\<And>k j. k < length vb \<Longrightarrow> j < 8
                 \<Longrightarrow> bit (out ! k) j
                      = (if 8 * k + j < T + 8 then bit (vb1 ! k) j
                         else if 8 * k + j < T + 8 + (R - 8)
                           then cmos_bit c (D + 8 + (8 * k + j - (T + 8)))
                         else False)"
        unfolding d8 t8 r8 by (auto simp: vb1_def)
      have bits: "bit (out ! k) j
                      = (if 8 * k + j < T then bit (vb ! k) j
                         else if 8 * k + j < T + R then cmos_bit c (D + (8 * k + j - T))
                         else False)"
        if "k < length vb" and "j < 8" for k j
      proof -
        consider (before) "8 * k + j < T" | (here) "T \<le> 8 * k + j" "8 * k + j < T + 8"
          | (after) "T + 8 \<le> 8 * k + j" by linarith
        then show ?thesis
        proof cases
          case before
          then have "k \<noteq> t" unfolding Tt by linarith
          with IH [OF that] before show ?thesis by (simp add: vb1_def)
        next
          case here
          then have kt: "k = t" using that(2) unfolding Tt by linarith
          have "cmos_bit c (D + j) = bit n j"
          proof -
            have "(D + j) div 8 = q" "(D + j) mod 8 = j"
              using al that(2) unfolding Dq by simp_all
            then show ?thesis
              by (simp add: cmos_bit_def q_def D_def of_nat_div8 n_def)
          qed
          with IH [OF that] here R8 tlen show ?thesis
            by (simp add: vb1_def kt Tt)
        next
          case after
          have "D + 8 + (8 * k + j - (T + 8)) = D + (8 * k + j - T)"
            using after by linarith
          with IH [OF that] after R8 show ?thesis by auto
        qed
      qed
      show ?thesis
        using step rest len bits by (auto simp: defs)
    qed
  qed
qed

subsection \<open>Writing a buffer and reading it back\<close>

lemma remaining_full:
  assumes "unat (l::uint) \<le> 8 * n" and "n \<le> 256"
  shows "(if l > of_nat (n * 8) then of_nat (n * 8) else l) = l"
proof -
  have "unat (of_nat (n * 8) :: uint) = n * 8"
    using le_unat_uoi [of "n * 8" "2048 :: uint"] assms(2) by simp
  with assms(1) have "\<not> l > of_nat (n * 8)"
    by (simp add: word_less_nat_alt)
  then show ?thesis by simp
qed

lemma roundtrip_buffer:
  assumes op: "operable e" and ok: "accessor_ok c"
    and len: "length v = (if config e = CMOSEntryString then unat ((length_e e + 7) div 8) else 8)"
    and high: "\<And>k j. k < length v \<Longrightarrow> j < 8 \<Longrightarrow> unat (length_e e) \<le> 8 * k + j \<Longrightarrow> \<not> bit (v ! k) j"
  shows "\<exists>c'. WriteEntry c e v = (None, c') \<and> accessor_ok c' \<and> checksum c' = checksum c
              \<and> ReadEntry c' e = Inr v"
proof -
  define B L where "B = unat (bit_e e)" and "L = unat (length_e e)"
  note bnd = operable_nat [OF op, folded B_def L_def]
  from op have ver: "verifyCMOSOp e = None" by (simp add: operable_def)
  have L2048: "L \<le> 2048" using bnd(1,2) by linarith
  have lenv: "L \<le> 8 * length v" "length v \<le> 256"
  proof -
    show "L \<le> 8 * length v"
    proof (cases "config e = CMOSEntryString")
      case True
      with len have "length v = (L + 7) div 8"
        using L2048 by (simp add: unat_len8 L_def)
      then show ?thesis by presburger
    next
      case False
      with len bnd(4) show ?thesis by (simp add: L_def)
    qed
    show "length v \<le> 256"
    proof (cases "config e = CMOSEntryString")
      case True
      with len have "length v = (L + 7) div 8"
        using L2048 by (simp add: unat_len8 L_def)
      with L2048 show ?thesis by linarith
    next
      case False
      with len show ?thesis by simp
    qed
  qed
  have rem: "(if length_e e > of_nat (length v * 8) then of_nat (length v * 8) else length_e e) = length_e e"
    using lenv by (intro remaining_full) (simp_all add: L_def)
  have "\<exists>c'. WriteEntry_loop c v 0 (length_e e) (bit_e e) = (None, c') \<and> accessor_ok c'
           \<and> checksum c' = checksum c
           \<and> (\<forall>i j. j < 8 \<and> unat (bit_e e) \<le> 8 * unat i + j \<and> 8 * unat i + j < unat (bit_e e) + unat (length_e e)
                 \<longrightarrow> bit (cells (device c') i) j
                      = bit (v ! ((unat (0::uint) + (8 * unat i + j - unat (bit_e e))) div 8))
                            ((unat (0::uint) + (8 * unat i + j - unat (bit_e e))) mod 8))"
    using bnd lenv L2048 by (intro WriteEntry_loop_ok [OF ok]) (simp_all add: B_def L_def)
  then obtain c' where wr: "WriteEntry_loop c v 0 (length_e e) (bit_e e) = (None, c')"
    and ok': "accessor_ok c'" and cs: "checksum c' = checksum c"
    and W: "\<And>i j. j < 8 \<Longrightarrow> B \<le> 8 * unat i + j \<Longrightarrow> 8 * unat i + j < B + L
                 \<Longrightarrow> bit (cells (device c') i) j
                      = bit (v ! ((8 * unat i + j - B) div 8)) ((8 * unat i + j - B) mod 8)"
    by (auto simp: B_def L_def)
  have wE: "WriteEntry c e v = (None, c')"
    by (simp only: WriteEntry_def ver option.case Let_def rem wr)
  define z where "z = replicate (length v) (0::byte)"
  have "\<exists>out. ReadEntry_loop c' z (bit_e e) (length_e e) 0 = Inr out \<and> length out = length z
           \<and> (\<forall>k j. k < length z \<and> j < 8
                 \<longrightarrow> bit (out ! k) j
                      = (if 8 * k + j < unat (0::uint) then bit (z ! k) j
                         else if 8 * k + j < unat (0::uint) + unat (length_e e)
                           then cmos_bit c' (unat (bit_e e) + (8 * k + j - unat (0::uint)))
                         else False))"
    using bnd lenv L2048 by (intro ReadEntry_loop_ok [OF ok']) (simp_all add: B_def L_def z_def)
  then obtain out where rd: "ReadEntry_loop c' z (bit_e e) (length_e e) 0 = Inr out"
    and lout: "length out = length v"
    and R: "\<And>k j. k < length v \<Longrightarrow> j < 8
                 \<Longrightarrow> bit (out ! k) j = (if 8 * k + j < L then cmos_bit c' (B + (8 * k + j)) else False)"
    by (auto simp: B_def L_def z_def)
  have "out = v"
  proof (rule nth_equalityI)
    show "length out = length v" by fact
    fix k assume "k < length out"
    then have k: "k < length v" by (simp add: lout)
    show "out ! k = v ! k"
    proof (rule bit_eqI)
      fix j
      show "bit (out ! k) j = bit (v ! k) j"
      proof (cases "j < 8")
        case False
        then show ?thesis by (auto dest: bit_imp_le_length)
      next
        case j: True
        show ?thesis
        proof (cases "8 * k + j < L")
          case False
          with R [OF k j] high [OF k j] show ?thesis by (simp add: L_def)
        next
          case True
          define p where "p = B + (8 * k + j)"
          define i :: uint where "i = of_nat (p div 8)"
          have "p < 2048" using True bnd(2) by (simp add: p_def)
          then have ui: "unat i = p div 8" by (simp add: i_def unat_of_nat)
          have pos: "8 * unat i + p mod 8 = p" by (simp add: ui)
          have "cmos_bit c' p = bit (cells (device c') i) (p mod 8)"
            by (simp add: cmos_bit_def i_def)
          also have "\<dots> = bit (v ! ((8 * unat i + p mod 8 - B) div 8)) ((8 * unat i + p mod 8 - B) mod 8)"
            using True by (intro W) (simp_all add: pos, simp_all add: p_def)
          also have "\<dots> = bit (v ! k) j"
          proof -
            have "8 * unat i + p mod 8 - B = 8 * k + j"
              unfolding pos by (simp add: p_def)
            then show ?thesis using j by simp
          qed
          finally show ?thesis
            using R [OF k j] True by (simp add: p_def)
        qed
      qed
    qed
  qed
  with rd have rE: "ReadEntry c' e = Inr v"
    by (cases "config e = CMOSEntryString") (simp_all add: ReadEntry_def ver z_def len)
  from wE ok' cs rE show ?thesis by blast
qed

subsection \<open>The checksum\<close>

lemma ComputeChecksum_loop_sum:
  assumes "ComputeChecksum_loop c i acc = Inr s"
  shows "s = acc + (\<Sum>k = unat i..unat (end_c (checksum c)). ucast (cells (device c) (of_nat k)))"
  using assms
proof (induction c i acc rule: ComputeChecksum_loop.induct)
  case (1 c i acc)
  show ?case
  proof (cases "i \<le> end_c (checksum c)")
    case False
    then have "unat (end_c (checksum c)) < unat i" by (simp add: word_le_nat_alt)
    with "1.prems" False show ?thesis
      by (simp add: ComputeChecksum_loop.simps [of c i acc])
  next
    case True
    then have le: "unat i \<le> unat (end_c (checksum c))" by (simp add: word_le_nat_alt)
    from "1.prems" True obtain b where rd: "ReadByte c i = Inr b"
      and rest: "ComputeChecksum_loop c (i + 1) (acc + ucast b) = Inr s"
      by (auto simp: ComputeChecksum_loop.simps [of c i acc] split: sum.splits)
    have b: "b = cells (device c) i" using ReadByte_Inr(1) [OF rd] .
    have i1: "unat (i + 1) = Suc (unat i)" using ReadByte_Inr_index(2) [OF rd] by simp
    from "1.IH" [OF True rd rest]
    have "s = acc + ucast b + (\<Sum>k = Suc (unat i)..unat (end_c (checksum c)). ucast (cells (device c) (of_nat k)))"
      by (simp add: i1)
    then show ?thesis
      by (simp add: sum.atLeast_Suc_atMost [OF le] b add.assoc)
  qed
qed

lemma ComputeChecksum_loop_agree:
  assumes "ComputeChecksum_loop c i acc = Inr s"
    and "checksum c2 = checksum c" and "accessor_open c2"
    and "rd_fault (device c2) = rd_fault (device c)"
    and "\<And>k. i \<le> k \<Longrightarrow> k \<le> end_c (checksum c) \<Longrightarrow> cells (device c2) k = cells (device c) k"
  shows "ComputeChecksum_loop c2 i acc = Inr s"
  using assms
proof (induction c i acc rule: ComputeChecksum_loop.induct)
  case (1 c i acc)
  show ?case
  proof (cases "i \<le> end_c (checksum c)")
    case False
    with "1.prems"(1) have "acc = s"
      by (simp add: ComputeChecksum_loop.simps [of c i acc])
    with False "1.prems"(2) show ?thesis
      by (subst ComputeChecksum_loop.simps) simp
  next
    case True
    from "1.prems"(1) True obtain b where rd: "ReadByte c i = Inr b"
      and rest: "ComputeChecksum_loop c (i + 1) (acc + ucast b) = Inr s"
      by (auto simp: ComputeChecksum_loop.simps [of c i acc] split: sum.splits)
    have i1: "unat (i + 1) = Suc (unat i)" using ReadByte_Inr_index(2) [OF rd] by simp
    have rd2: "ReadByte c2 i = Inr b"
      using ReadByte_Inr [OF rd] "1.prems"(3,4) "1.prems"(5) [OF order_refl True]
      by (simp add: ReadByte_def CMOSer_ReadByte_def)
    have "ComputeChecksum_loop c2 (i + 1) (acc + ucast b) = Inr s"
    proof (rule "1.IH" [OF True rd rest "1.prems"(2,3,4)])
      fix k assume k: "i + 1 \<le> k" "k \<le> end_c (checksum c)"
      from k(1) have "i \<le> k" by (simp add: word_le_nat_alt i1)
      then show "cells (device c2) k = cells (device c) k" using k(2) by (rule "1.prems"(5))
    qed
    with rd2 True "1.prems"(2) show ?thesis
      by (subst ComputeChecksum_loop.simps) simp
  qed
qed

lemma WriteChecksum_None:
  assumes "WriteChecksum c csum = (None, c')"
  shows "c' = c\<lparr>device := (device c)\<lparr>cells := (cells (device c))
                  (index_c (checksum c) := ucast (drop_bit 8 csum),
                   index_c (checksum c) + 1 := ucast (csum AND 0xFF))\<rparr>\<rparr>"
    and "accessor_open c" and "verifyCMOSByteIndex (index_c (checksum c))"
    and "verifyCMOSByteIndex (index_c (checksum c) + 1)"
proof -
  from assms obtain c1 where w1: "WriteByte c (index_c (checksum c)) (ucast (drop_bit 8 csum)) = Inr c1"
    and w2: "WriteByte c1 (index_c (checksum c1) + 1) (ucast (csum AND 0xFF)) = Inr c'"
    by (auto simp: WriteChecksum_def split: sum.splits)
  note a = WriteByte_Inr [OF w1] and b = WriteByte_Inr [OF w2]
  from a(1) have cs: "checksum c1 = checksum c" by simp
  show "c' = c\<lparr>device := (device c)\<lparr>cells := (cells (device c))
                  (index_c (checksum c) := ucast (drop_bit 8 csum),
                   index_c (checksum c) + 1 := ucast (csum AND 0xFF))\<rparr>\<rparr>"
    using a(1) b(1) by (simp add: cs)
  show "accessor_open c" by (rule a(2))
  show "verifyCMOSByteIndex (index_c (checksum c))" by (rule a(3))
  show "verifyCMOSByteIndex (index_c (checksum c) + 1)" using b(3) by (simp add: cs)
qed

lemma NewCMOSChecksum_Inr:
  assumes "NewCMOSChecksum s e i = Inr d"
  shows "verifyCMOSByteIndex (start_c d)" and "verifyCMOSByteIndex (end_c d)"
    and "verifyCMOSByteIndex (index_c d)"
    and "\<not> (index_c d \<le> end_c d \<and> start_c d \<le> 2 * index_c d)"
proof -
  from assms have d: "d = \<lparr>start_c = s div 8, end_c = e div 8, index_c = i div 8\<rparr>"
    and v: "verifyCMOSByteIndex (s div 8)" "verifyCMOSByteIndex (e div 8)" "verifyCMOSByteIndex (i div 8)"
    and ov: "\<not> checkAreaOverLap (s div 8) (e div 8 - s div 8 + 1) (i div 8) (i div 8 + 1)"
    by (auto simp: NewCMOSChecksum_def Let_def split: if_splits)
  from v show "verifyCMOSByteIndex (start_c d)" "verifyCMOSByteIndex (end_c d)"
    "verifyCMOSByteIndex (index_c d)" by (simp_all add: d)
  have "s div 8 + (e div 8 - s div 8 + 1) - 1 = e div 8" by simp
  moreover have "i div 8 + (i div 8 + 1) - 1 = 2 * (i div 8)" by simp
  ultimately show "\<not> (index_c d \<le> end_c d \<and> start_c d \<le> 2 * index_c d)"
    using ov by (simp add: checkAreaOverLap_def Let_def d)
qed

lemma location_outside:
  assumes "NewCMOSChecksum s e i = Inr d"
    and "start_c d \<le> k" and "k \<le> end_c d"
  shows "k \<noteq> index_c d" and "k \<noteq> index_c d + 1"
proof -
  note v = NewCMOSChecksum_Inr [OF assms(1)]
  from v(3) have idx: "14 \<le> unat (index_c d)" "unat (index_c d) < 256"
    by (simp_all add: verifyCMOSByteIndex_def cmosRTCAreaSize_def cmosSize_def
        word_le_nat_alt word_less_nat_alt)
  then have two: "unat (2 * index_c d) = 2 * unat (index_c d)"
    and one: "unat (index_c d + 1) = unat (index_c d) + 1"
    by (simp_all add: unat_word_ariths)
  from v(4) have no: "\<not> (unat (index_c d) \<le> unat (end_c d) \<and> unat (start_c d) \<le> 2 * unat (index_c d))"
    by (simp add: word_le_nat_alt two)
  from assms(2,3) have k: "unat (start_c d) \<le> unat k" "unat k \<le> unat (end_c d)"
    by (simp_all add: word_le_nat_alt)
  show "k \<noteq> index_c d"
  proof
    assume "k = index_c d"
    with k no show False by simp
  qed
  show "k \<noteq> index_c d + 1"
  proof
    assume "k = index_c d + 1"
    with k no idx one show False by simp
  qed
qed

subsection \<open>The enumeration maps\<close>

lemma FindCMOSEnumText_Add:
  "FindCMOSEnumText (AddCMOSEnum l item) i v =
     (if i = id_i item \<and> v = value_i item then Some (text_i item) else FindCMOSEnumText l i v)"
  by (auto simp: FindCMOSEnumText_def AddCMOSEnum_def Let_def split: option.splits)

lemma FindCMOSEnumValue_Add:
  "FindCMOSEnumValue (AddCMOSEnum l item) i t =
     (if i = id_i item \<and> t = text_i item then Some (value_i item) else FindCMOSEnumValue l i t)"
  by (auto simp: FindCMOSEnumValue_def AddCMOSEnum_def Let_def split: option.splits)

lemma FindCMOSEnumText_NewLayout: "FindCMOSEnumText NewLayout i v = None"
  by (simp add: FindCMOSEnumText_def NewLayout_def)

lemma FindCMOSEnumValue_NewLayout: "FindCMOSEnumValue NewLayout i t = None"
  by (simp add: FindCMOSEnumValue_def NewLayout_def)

lemma FindCMOSEnumText_items:
  "FindCMOSEnumText (foldl AddCMOSEnum NewLayout items) i v = Some t
     \<Longrightarrow> \<exists>a \<in> set items. id_i a = i \<and> value_i a = v \<and> text_i a = t"
  by (induction items arbitrary: t rule: rev_induct)
     (auto simp: FindCMOSEnumText_Add FindCMOSEnumText_NewLayout split: if_splits)

lemma FindCMOSEnumValue_items:
  "FindCMOSEnumValue (foldl AddCMOSEnum NewLayout items) i t = Some v
     \<Longrightarrow> \<exists>a \<in> set items. id_i a = i \<and> value_i a = v \<and> text_i a = t"
  by (induction items arbitrary: v rule: rev_induct)
     (auto simp: FindCMOSEnumValue_Add FindCMOSEnumValue_NewLayout split: if_splits)

lemma FindCMOSEnumText_defined:
  "a \<in> set items \<Longrightarrow> \<exists>t. FindCMOSEnumText (foldl AddCMOSEnum NewLayout items) (id_i a) (value_i a) = Some t"
  by (induction items rule: rev_induct) (auto simp: FindCMOSEnumText_Add)

lemma FindCMOSEnumValue_defined:
  "a \<in> set items \<Longrightarrow> \<exists>v. FindCMOSEnumValue (foldl AddCMOSEnum NewLayout items) (id_i a) (text_i a) = Some v"
  by (induction items rule: rev_induct) (auto simp: FindCMOSEnumValue_Add)

section \<open>Further facts about the code\<close>

subsection \<open>The codec never indexes outside a buffer on an operable entry\<close>

text \<open>
  \<open>WriteEntry\<close> never reads the buffer out of range, whatever the entry and the buffer;
  \<open>ReadEntry\<close> never writes its buffer out of range on an operable entry. Both loops
  are total functions.
\<close>

lemma ReadByte_Inl: "ReadByte c i = Inl err \<Longrightarrow> err \<noteq> PanicIndexOutOfRange"
  by (auto simp: ReadByte_def CMOSer_ReadByte_def split: if_splits)

lemma WriteByte_Inl: "WriteByte c i b = Inl err \<Longrightarrow> err \<noteq> PanicIndexOutOfRange"
  by (auto simp: WriteByte_def CMOSer_WriteByte_def split: if_splits sum.splits)

lemma verifyCMOSOp_Some: "verifyCMOSOp e = Some err \<Longrightarrow> err \<noteq> PanicIndexOutOfRange"
  by (auto simp: verifyCMOSOp_def verifyCMOSEntry_def split: if_splits)

lemma WriteEntry_loop_no_panic:
  assumes "unat src mod 8 = 0" and "unat src + unat rem \<le> 8 * length v"
    and "unat src + unat rem < 2 ^ 64"
  shows "fst (WriteEntry_loop c v src rem dst) \<noteq> Some PanicIndexOutOfRange"
  using assms
proof (induction "unat rem" arbitrary: c src rem dst rule: less_induct)
  case less
  show ?case
  proof (cases "0 < rem")
    case False
    then show ?thesis by (simp add: WriteEntry_loop_done)
  next
    case pos: True
    then have Rpos: "0 < unat rem" by (simp add: word_less_nat_alt)
    define t where "t = unat src div 8"
    have St: "unat src = 8 * t" using less.prems(1) by (auto simp: t_def)
    have inb: "\<not> length v \<le> unat (drop_bit 3 src)"
      using less.prems(2) Rpos unfolding unat_drop_bit3 t_def [symmetric] St by linarith
    show ?thesis
    proof (cases "rem < 8")
      case True
      show ?thesis
        unfolding WriteEntry_loop_partial [OF pos inb True]
        by (auto split: sum.splits dest: ReadByte_Inl WriteByte_Inl)
    next
      case False
      then have R8: "8 \<le> unat rem" by (simp add: word_less_nat_alt not_less)
      have r8: "unat (rem - 8) = unat rem - 8" using False by (rule unat_minus8)
      have s8: "unat (src + 8) = unat src + 8"
        using less.prems(3) R8 by (simp add: unat_word_ariths)
      have IH: "fst (WriteEntry_loop c1 v (src + 8) (rem - 8) (dst + 8)) \<noteq> Some PanicIndexOutOfRange" for c1
      proof (rule less.hyps)
        show "unat (rem - 8) < unat rem" using R8 by (simp add: r8)
        show "unat (src + 8) mod 8 = 0" using less.prems(1) by (simp add: s8)
        show "unat (src + 8) + unat (rem - 8) \<le> 8 * length v" using less.prems(2) R8 by (simp add: s8 r8)
        show "unat (src + 8) + unat (rem - 8) < 2 ^ 64" using less.prems(3) R8 by (simp add: s8 r8)
      qed
      show ?thesis
        unfolding WriteEntry_loop_whole [OF pos inb False]
        using IH by (auto split: sum.splits dest: WriteByte_Inl)
    qed
  qed
qed

lemma WriteEntry_no_panic: "fst (WriteEntry c e v) \<noteq> Some PanicIndexOutOfRange"
proof (cases "verifyCMOSOp e")
  case (Some err)
  then show ?thesis by (auto simp: WriteEntry_def dest: verifyCMOSOp_Some)
next
  case None
  define rem :: uint where
    "rem = (if length_e e > of_nat (length v * 8) then of_nat (length v * 8) else length_e e)"
  have "unat (of_nat (length v * 8) :: uint) \<le> length v * 8"
    by (simp only: unat_of_nat) simp
  moreover have "unat rem \<le> unat (of_nat (length v * 8) :: uint)"
    by (simp only: rem_def word_less_nat_alt split: if_splits) simp
  ultimately have le: "unat rem \<le> 8 * length v" by linarith
  have "fst (WriteEntry_loop c v 0 rem (bit_e e)) \<noteq> Some PanicIndexOutOfRange"
    using le by (intro WriteEntry_loop_no_panic) (simp_all add: unsigned_less [where ?'b = 64, simplified])
  then show ?thesis
    unfolding WriteEntry_def None option.case Let_def rem_def .
qed

lemma ReadEntry_loop_no_panic:
  assumes "unat dst mod 8 = 0" and "unat dst + unat rem \<le> 8 * length vb"
    and "unat dst + unat rem < 2 ^ 64"
  shows "ReadEntry_loop c vb src rem dst \<noteq> Inl PanicIndexOutOfRange"
  using assms
proof (induction "unat rem" arbitrary: vb src rem dst rule: less_induct)
  case less
  show ?case
  proof (cases "0 < rem")
    case False
    then show ?thesis by (simp add: ReadEntry_loop_done)
  next
    case pos: True
    then have Rpos: "0 < unat rem" by (simp add: word_less_nat_alt)
    define t where "t = unat dst div 8"
    have Tt: "unat dst = 8 * t" using less.prems(1) by (auto simp: t_def)
    have inb: "\<not> length vb \<le> unat (drop_bit 3 dst)"
      using less.prems(2) Rpos unfolding unat_drop_bit3 t_def [symmetric] Tt by linarith
    show ?thesis
    proof (cases "rem < 8")
      case True
      show ?thesis
        unfolding ReadEntry_loop_partial [OF pos True]
        using inb by (auto split: sum.splits dest: ReadByte_Inl)
    next
      case False
      then have R8: "8 \<le> unat rem" by (simp add: word_less_nat_alt not_less)
      have r8: "unat (rem - 8) = unat rem - 8" using False by (rule unat_minus8)
      have d8: "unat (dst + 8) = unat dst + 8"
        using less.prems(3) R8 by (simp add: unat_word_ariths)
      have IH: "ReadEntry_loop c (vb[k := n]) (src + 8) (rem - 8) (dst + 8) \<noteq> Inl PanicIndexOutOfRange" for k n
      proof (rule less.hyps)
        show "unat (rem - 8) < unat rem" using R8 by (simp add: r8)
        show "unat (dst + 8) mod 8 = 0" using less.prems(1) by (simp add: d8)
        show "unat (dst + 8) + unat (rem - 8) \<le> 8 * length (vb[k := n])"
          using less.prems(2) R8 by (simp add: d8 r8)
        show "unat (dst + 8) + unat (rem - 8) < 2 ^ 64" using less.prems(3) R8 by (simp add: d8 r8)
      qed
      show ?thesis
        unfolding ReadEntry_loop_whole [OF pos False]
        using inb IH by (auto split: sum.splits dest: ReadByte_Inl)
    qed
  qed
qed

lemma ReadEntry_no_panic:
  assumes "operable e"
  shows "ReadEntry c e \<noteq> Inl PanicIndexOutOfRange"
proof -
  note bnd = operable_nat [OF assms]
  from assms have ver: "verifyCMOSOp e = None" by (simp add: operable_def)
  have L: "unat (length_e e) \<le> 2048" using bnd(1,2) by linarith
  define vb :: "byte list" where
    "vb = (if config e = CMOSEntryString then replicate (unat ((length_e e + 7) div 8)) 0
           else replicate 8 0)"
  have "unat (length_e e) \<le> 8 * length vb"
  proof (cases "config e = CMOSEntryString")
    case True
    then have "length vb = (unat (length_e e) + 7) div 8"
      using L by (simp add: vb_def unat_len8)
    then show ?thesis by presburger
  next
    case False
    with bnd(4) show ?thesis by (simp add: vb_def)
  qed
  then have "ReadEntry_loop c vb (bit_e e) (length_e e) 0 \<noteq> Inl PanicIndexOutOfRange"
    using L by (intro ReadEntry_loop_no_panic) simp_all
  then show ?thesis
    by (simp add: ReadEntry_def ver vb_def)
qed

subsection \<open>A string shorter than its field\<close>

text \<open>
  A string of at most \<open>length / 8\<close> bytes, which is what \<open>WriteCMOSParameter\<close> accepts for
  a String entry, is read back followed by the zero bytes that fill the field.
\<close>

lemma roundtrip_short_string:
  assumes "operable e" and "accessor_ok c" and str: "config e = CMOSEntryString"
    and fit: "8 * length s \<le> unat (length_e e)"
  shows "\<exists>c'. WriteEntry c e (encode_value e (VString s)) = (None, c')
           \<and> ReadEntry c' e
               = Inr (bytes_of s @ replicate (unat ((length_e e + 7) div 8) - length s) 0)"
proof -
  define n where "n = unat ((length_e e + 7) div 8)"
  define v where "v = bytes_of s @ replicate (n - length s) 0"
  note bnd = operable_nat [OF assms(1)]
  have L: "unat (length_e e) \<le> 2048" using bnd(1,2) by linarith
  have n: "n = (unat (length_e e) + 7) div 8" using L by (simp add: n_def unat_len8)
  have sn: "length s \<le> n" using fit unfolding n by presburger
  have enc: "encode_value e (VString s) = v"
    using sn by (simp add: encode_value_def v_def n_def bytes_of_def)
  have len: "length v = n" using sn by (simp add: v_def bytes_of_def)
  have high: "\<not> bit (v ! k) j" if "k < length v" "j < 8" "unat (length_e e) \<le> 8 * k + j" for k j
  proof -
    from that(2,3) fit have "length s \<le> k" by presburger
    with that(1) have "v ! k = 0"
      by (simp add: v_def nth_append bytes_of_def)
    then show ?thesis by simp
  qed
  have "\<exists>c'. WriteEntry c e v = (None, c') \<and> accessor_ok c' \<and> checksum c' = checksum c
              \<and> ReadEntry c' e = Inr v"
    using high by (intro roundtrip_buffer assms) (simp_all add: str len n_def)
  then show ?thesis
    unfolding enc v_def n_def by blast
qed

subsection \<open>What NewCMOSChecksum accepts\<close>

text \<open>
  \<open>NewCMOSChecksum\<close> accepts exactly the aligned, in-range descriptors whose area is
  disjoint from the bytes \<open>index\<close> to \<open>2 * index\<close>; each of them meets the condition of
  the specification.
\<close>

lemma NewCMOSChecksum_iff:
  "NewCMOSChecksum s e i = Inr d \<longleftrightarrow>
     s mod 8 = 0 \<and> e mod 8 = 7 \<and> i mod 8 = 0 \<and> s < e
     \<and> verifyCMOSByteIndex (s div 8) \<and> verifyCMOSByteIndex (e div 8)
     \<and> verifyCMOSByteIndex (i div 8)
     \<and> \<not> (i div 8 \<le> e div 8 \<and> s div 8 \<le> 2 * (i div 8))
     \<and> d = \<lparr>start_c = s div 8, end_c = e div 8, index_c = i div 8\<rparr>"
proof -
  have "s div 8 + (e div 8 - s div 8 + 1) - 1 = e div 8" by simp
  moreover have "i div 8 + (i div 8 + 1) - 1 = 2 * (i div 8)" by simp
  ultimately have ov: "checkAreaOverLap (s div 8) (e div 8 - s div 8 + 1) (i div 8) (i div 8 + 1)
      \<longleftrightarrow> i div 8 \<le> e div 8 \<and> s div 8 \<le> 2 * (i div 8)"
    by (simp add: checkAreaOverLap_def Let_def)
  show ?thesis
    unfolding NewCMOSChecksum_def Let_def ov
    by (auto simp: not_le)
qed

lemma NewCMOSChecksum_sound:
  assumes "NewCMOSChecksum s e i = Inr d"
  shows "checksum_spec_ok s e i"
proof -
  note c = assms [unfolded NewCMOSChecksum_iff]
  from c have idx: "verifyCMOSByteIndex (i div 8)" by simp
  then have i: "14 \<le> unat (i div 8)" "unat (i div 8) < 256"
    by (simp_all add: verifyCMOSByteIndex_def cmosRTCAreaSize_def cmosSize_def
        word_le_nat_alt word_less_nat_alt)
  then have two: "unat (2 * (i div 8)) = 2 * unat (i div 8)"
    and one: "unat (i div 8 + 1) = unat (i div 8) + 1"
    by (simp_all add: unat_word_ariths)
  from c have "\<not> (i div 8 \<le> e div 8 \<and> s div 8 \<le> 2 * (i div 8))" by simp
  then have "unat (e div 8) < unat (i div 8) \<or> 2 * unat (i div 8) < unat (s div 8)"
    by (simp add: word_le_nat_alt two) linarith
  with i have "e div 8 < i div 8 \<or> i div 8 + 1 < s div 8"
    by (auto simp: word_less_nat_alt one)
  with c show ?thesis
    by (simp add: checksum_spec_ok_def)
qed

subsection \<open>Close and the checksum update\<close>

text \<open>
  \<open>Close\<close> releases the lock and leaves the accessor closed on every path. With a working
  accessor and a descriptor from \<open>NewCMOSChecksum\<close> whose index is not 255, every byte
  access of the checksum update succeeds; at index 255 the second byte would be byte 256,
  which the accessor refuses.
\<close>

lemma Close_releases:
  "fst (snd (Close lockstate nv)) = 0
   \<and> \<not> accessor_open (cmos (snd (snd (Close lockstate nv))))"
  by (auto simp: Close_def CMOS_Close_def Let_def split: sum.splits prod.splits option.splits)

lemma ComputeChecksum_loop_ok:
  assumes "accessor_ok c" and "14 \<le> unat i" and "unat (end_c (checksum c)) < 256"
  shows "\<exists>s. ComputeChecksum_loop c i acc = Inr s"
  using assms
proof (induction c i acc rule: ComputeChecksum_loop.induct)
  case (1 c i acc)
  show ?case
  proof (cases "i \<le> end_c (checksum c)")
    case False
    then show ?thesis by (subst ComputeChecksum_loop.simps) simp
  next
    case True
    then have "unat i < 256" using "1.prems"(3) by (simp add: word_le_nat_alt)
    with "1.prems"(2) have idx: "verifyCMOSByteIndex i"
      by (simp add: verifyCMOSByteIndex_def cmosRTCAreaSize_def cmosSize_def
          word_le_nat_alt word_less_nat_alt)
    note rd = ReadByte_ok [OF "1.prems"(1) idx]
    have "14 \<le> unat (i + 1)"
      using ReadByte_Inr_index(2) [OF rd] "1.prems"(2) by simp
    from "1.IH" [OF True rd "1.prems"(1) this "1.prems"(3)] True rd show ?thesis
      by (subst ComputeChecksum_loop.simps) simp
  qed
qed

lemma checksum_update_ok_sufficient:
  assumes ok: "accessor_ok c" and valid: "NewCMOSChecksum s e i = Inr (checksum c)"
    and last: "index_c (checksum c) \<noteq> 255"
  shows "checksum_update_ok c"
proof -
  note v = NewCMOSChecksum_Inr [OF valid]
  from v(1) have "14 \<le> unat (start_c (checksum c))"
    by (simp add: verifyCMOSByteIndex_def cmosRTCAreaSize_def word_le_nat_alt)
  moreover from v(2) have "unat (end_c (checksum c)) < 256"
    by (simp add: verifyCMOSByteIndex_def cmosSize_def word_less_nat_alt)
  ultimately obtain t where t: "ComputeChecksum c = Inr t"
    using ComputeChecksum_loop_ok [OF ok] unfolding ComputeChecksum_def by blast
  from v(3) have "14 \<le> unat (index_c (checksum c))" "unat (index_c (checksum c)) < 256"
    by (simp_all add: verifyCMOSByteIndex_def cmosRTCAreaSize_def cmosSize_def
        word_le_nat_alt word_less_nat_alt)
  moreover from last have "unat (index_c (checksum c)) \<noteq> 255"
    by (simp add: word_unat_eq_iff)
  ultimately have "14 \<le> unat (index_c (checksum c) + 1)" "unat (index_c (checksum c) + 1) < 256"
    by (simp_all add: unat_word_ariths)
  then have next_ok: "verifyCMOSByteIndex (index_c (checksum c) + 1)"
    by (simp add: verifyCMOSByteIndex_def cmosRTCAreaSize_def cmosSize_def
        word_le_nat_alt word_less_nat_alt)
  have "fst (WriteChecksum c t) = None"
    using next_ok
    by (simp add: WriteChecksum_def WriteByte_ok [OF ok v(3)]
        WriteByte_ok [OF accessor_ok_update [OF ok]])
  with t show ?thesis by (simp add: checksum_update_ok_def)
qed

text \<open>
  With a working accessor, a descriptor that \<open>NewCMOSChecksum\<close> returned whose index is
  not 255, and \<open>modified\<close> set, \<open>Close\<close> persists the checksum. With \<open>total\<close> the 16-bit
  wrapping sum of the final CMOS bytes from \<open>start\<close> to \<open>end\<close>: the byte at \<open>index\<close> is
  the high byte of \<open>total\<close> and the byte at \<open>index + 1\<close> its low byte, so the stored
  big-endian value is \<open>total\<close>; computing the checksum again on the persisted bytes gives
  \<open>total\<close>; and \<open>modified\<close> is cleared.
\<close>

lemma Close_persists_checksum:
  assumes valid: "NewCMOSChecksum s e i = Inr (checksum (cmos nv))"
    and dirty: "modified nv"
    and ok: "accessor_ok (cmos nv)"
    and last: "index_c (checksum (cmos nv)) \<noteq> 255"
    and run: "Close lockstate nv = (err, lockstate', nv')"
  shows "let d = checksum (cmos nv');
             mem = cells (device (cmos nv'));
             total = (\<Sum>k = unat (start_c d)..unat (end_c d). ucast (mem (of_nat k)) :: uint16)
         in mem (index_c d) = ucast (drop_bit 8 total)
            \<and> mem (index_c d + 1) = ucast (total AND 0xFF)
            \<and> push_bit 8 (ucast (mem (index_c d))) + ucast (mem (index_c d + 1)) = total
            \<and> ComputeChecksum ((cmos nv')\<lparr>accessor_open := True\<rparr>) = Inr total
            \<and> \<not> modified nv'"
proof -
  note io = checksum_update_ok_sufficient [OF ok valid last]
  define c where "c = cmos nv"
  define d where "d = checksum c"
  from io obtain t c1 where comp: "ComputeChecksum c = Inr t"
    and wr: "WriteChecksum c t = (None, c1)"
    by (auto simp: checksum_update_ok_def c_def split: sum.splits) (metis prod.collapse)
  note w = WriteChecksum_None [OF wr, folded d_def]
  define c2 where "c2 = c1\<lparr>accessor_open := False\<rparr>"
  have nv': "nv' = nv\<lparr>cmos := c2, modified := False\<rparr>"
    using run dirty comp wr w(1,2)
    by (auto simp: Close_def c_def [symmetric] CMOS_Close_def c2_def Let_def)
  have d2: "checksum c2 = d" by (simp add: c2_def w(1) d_def)
  have mem: "cells (device c2) = (cells (device c))
                 (index_c d := ucast (drop_bit 8 t), index_c d + 1 := ucast (t AND 0xFF))"
    by (simp add: c2_def w(1))
  note v = NewCMOSChecksum_Inr [OF valid, folded c_def d_def]
  have out: "k \<noteq> index_c d" "k \<noteq> index_c d + 1" if "start_c d \<le> k" "k \<le> end_c d" for k
    using location_outside [OF valid, folded c_def d_def, OF that] .
  have same: "cells (device c2) k = cells (device c) k" if "start_c d \<le> k" "k \<le> end_c d" for k
    using out [OF that] by (simp add: mem)
  have t: "t = (\<Sum>k = unat (start_c d)..unat (end_c d). ucast (cells (device c) (of_nat k)))"
    using ComputeChecksum_loop_sum [OF comp [unfolded ComputeChecksum_def]] by (simp add: d_def)
  have e256: "unat (end_c d) < 256"
    using v(2) by (simp add: verifyCMOSByteIndex_def cmosSize_def word_less_nat_alt)
  have total: "(\<Sum>k = unat (start_c d)..unat (end_c d). ucast (cells (device c2) (of_nat k)) :: uint16) = t"
    unfolding t
  proof (rule sum.cong [OF refl])
    fix k assume "k \<in> {unat (start_c d)..unat (end_c d)}"
    then have k: "unat (start_c d) \<le> k" "k \<le> unat (end_c d)" by simp_all
    with e256 have "unat (of_nat k :: uint) = k" by (simp add: unat_of_nat)
    with k have "start_c d \<le> of_nat k" "of_nat k \<le> end_c d"
      by (simp_all add: word_le_nat_alt)
    from same [OF this] show "(ucast (cells (device c2) (of_nat k)) :: uint16) = ucast (cells (device c) (of_nat k))"
      by simp
  qed
  have ne: "index_c d \<noteq> index_c d + 1" by simp
  have hi: "cells (device c2) (index_c d) = ucast (drop_bit 8 t)"
    using ne by (simp add: mem)
  have lo: "cells (device c2) (index_c d + 1) = ucast (t AND 0xFF)"
    by (simp add: mem)
  have re: "ComputeChecksum (c2\<lparr>accessor_open := True\<rparr>) = Inr t"
    unfolding ComputeChecksum_def
  proof (simp add: d2, rule ComputeChecksum_loop_agree [OF comp [unfolded ComputeChecksum_def, folded d_def]])
    show "checksum (c2\<lparr>accessor_open := True\<rparr>) = checksum c" by (simp add: d2 d_def)
    show "accessor_open (c2\<lparr>accessor_open := True\<rparr>)" by simp
    show "rd_fault (device (c2\<lparr>accessor_open := True\<rparr>)) = rd_fault (device c)"
      by (simp add: c2_def w(1))
    fix k assume "start_c d \<le> k" "k \<le> end_c (checksum c)"
    then show "cells (device (c2\<lparr>accessor_open := True\<rparr>)) k = cells (device c) k"
      using same [of k] by (simp add: d_def)
  qed
  show ?thesis
    unfolding Let_def nv'
    by (simp add: d2 total hi lo re stored_big_endian)
qed

section \<open>The claims\<close>

subsection \<open>C1: round trip of the codec\<close>

text \<open>
  Claim C1 says that for every operable entry and every value that fits it, the buffer
  read back after writing the encoded value decodes to the value. A string is written
  into a zeroed buffer of the size of the field and read back in that size, and the
  trailing bytes are not stripped: the string \<open>abc\<close> written to the String entry of 64
  bits at bit 136 is read back as \<open>abc\<close> followed by five NUL bytes.
\<close>

theorem WriteEntry_ReadEntry_roundtrip_counterexample:
  "operable \<lparr>bit_e = 136, length_e = 64, config = CMOSEntryString, config_id = 0, name = ''tag''\<rparr>
   \<and> accessor_ok fixture_cmos
   \<and> representable \<lparr>bit_e = 136, length_e = 64, config = CMOSEntryString, config_id = 0, name = ''tag''\<rparr>
        (VString ''abc'')
   \<and> fst (WriteEntry fixture_cmos
        \<lparr>bit_e = 136, length_e = 64, config = CMOSEntryString, config_id = 0, name = ''tag''\<rparr>
        (encode_value \<lparr>bit_e = 136, length_e = 64, config = CMOSEntryString, config_id = 0, name = ''tag''\<rparr>
           (VString ''abc''))) = None
   \<and> ReadEntry (snd (WriteEntry fixture_cmos
        \<lparr>bit_e = 136, length_e = 64, config = CMOSEntryString, config_id = 0, name = ''tag''\<rparr>
        (encode_value \<lparr>bit_e = 136, length_e = 64, config = CMOSEntryString, config_id = 0, name = ''tag''\<rparr>
           (VString ''abc''))))
        \<lparr>bit_e = 136, length_e = 64, config = CMOSEntryString, config_id = 0, name = ''tag''\<rparr>
       = Inr [0x61, 0x62, 0x63, 0, 0, 0, 0, 0]
   \<and> decode_value \<lparr>bit_e = 136, length_e = 64, config = CMOSEntryString, config_id = 0, name = ''tag''\<rparr>
        [0x61, 0x62, 0x63, 0, 0, 0, 0, 0]
       = Inr (VString [CHR ''a'', CHR ''b'', CHR ''c'', CHR 0x00, CHR 0x00, CHR 0x00, CHR 0x00, CHR 0x00])
   \<and> decode_value \<lparr>bit_e = 136, length_e = 64, config = CMOSEntryString, config_id = 0, name = ''tag''\<rparr>
        [0x61, 0x62, 0x63, 0, 0, 0, 0, 0]
       \<noteq> Inr (VString ''abc'')"
proof -
  let ?e = "\<lparr>bit_e = 136, length_e = 64, config = CMOSEntryString, config_id = 0, name = ''tag''\<rparr>"
  have h1: "operable ?e" by code_simp
  have h2: "accessor_ok fixture_cmos"
    by (simp add: accessor_ok_def fixture_cmos_def fixture_device_def)
  have h3: "representable ?e (VString ''abc'')"
    by (simp add: representable_def)
  have h4: "fst (WriteEntry fixture_cmos ?e (encode_value ?e (VString ''abc''))) = None"
    by code_simp
  have h5: "ReadEntry (snd (WriteEntry fixture_cmos ?e (encode_value ?e (VString ''abc'')))) ?e
       = Inr [0x61, 0x62, 0x63, 0, 0, 0, 0, 0]"
    by code_simp
  have h6: "decode_value ?e [0x61, 0x62, 0x63, 0, 0, 0, 0, 0]
       = Inr (VString [CHR ''a'', CHR ''b'', CHR ''c'', CHR 0x00, CHR 0x00, CHR 0x00, CHR 0x00, CHR 0x00])"
    by code_simp
  have h7: "decode_value ?e [0x61, 0x62, 0x63, 0, 0, 0, 0, 0] \<noteq> Inr (VString ''abc'')"
    unfolding h6 by simp
  from h1 h2 h3 h4 h5 h6 h7 show ?thesis by blast
qed

text \<open>
  Claim C1, amended. For every operable entry \<open>e\<close> and every value \<open>x\<close> that fits it (a
  number below \<open>2 ^ length\<close>, encoded as 8 little-endian bytes, or a string of at most
  \<open>length / 8\<close> bytes), when the accessor is open and no byte access fails: \<open>WriteEntry\<close>
  of the encoded value succeeds, and \<open>ReadEntry\<close> on the resulting CMOS returns a buffer
  that decodes to \<open>x\<close> if \<open>x\<close> is a number, and to \<open>x\<close> followed by the NUL bytes that fill
  the \<open>(length + 7) / 8\<close> bytes of the field if \<open>x\<close> is a string, which is \<open>x\<close> itself when
  it fills the field.
\<close>

theorem WriteEntry_ReadEntry_roundtrip:
  assumes "operable e" and "accessor_ok c" and "representable e x"
  shows "\<exists>c' out. WriteEntry c e (encode_value e x) = (None, c')
           \<and> ReadEntry c' e = Inr out \<and> decode_value e out = Inr (padded_value e x)"
proof (cases x)
  case (VString s)
  with assms(3) have str: "config e = CMOSEntryString"
    and fit: "8 * length s \<le> unat (length_e e)"
    by (simp_all add: representable_def)
  from roundtrip_short_string [OF assms(1,2) str fit] show ?thesis
    by (auto simp: VString decode_value_def str string_of_padded padded_value_def)
next
  case (VUint64 n)
  with assms(3) have kind: "config e = CMOSEntryEnum \<or> config e = CMOSEntryHex"
    and bound: "length_e e < 64 \<Longrightarrow> n < push_bit (unat (length_e e)) 1"
    by (simp_all add: representable_def)
  from kind have nstr: "config e \<noteq> CMOSEntryString"
    using kinds_distinct by auto
  have enc: "encode_value e (VUint64 n) = PutUint64 n"
    by (simp add: encode_value_def)
  have L64: "unat (length_e e) \<le> 64"
    using operable_nat(4) [OF assms(1) nstr] .
  have high: "\<not> bit (PutUint64 n ! k) j"
    if "k < length (PutUint64 n)" and "j < 8" and "unat (length_e e) \<le> 8 * k + j" for k j
  proof -
    from that(1) have k: "k < 8" by (simp add: PutUint64_def)
    show ?thesis
    proof (cases "length_e e < 64")
      case True
      from not_bit_above [OF bound [OF True] that(3)] show ?thesis
        by (simp add: bit_PutUint64 [OF k])
    next
      case False
      with L64 have "unat (length_e e) = 64"
        by (simp add: word_less_nat_alt)
      with that(2,3) k show ?thesis by simp
    qed
  qed
  have "\<exists>c'. WriteEntry c e (PutUint64 n) = (None, c') \<and> accessor_ok c' \<and> checksum c' = checksum c
              \<and> ReadEntry c' e = Inr (PutUint64 n)"
    using high by (intro roundtrip_buffer assms) (simp_all add: nstr, simp add: PutUint64_def)
  then show ?thesis
    using kind by (auto simp: enc decode_value_def nstr Uint64_PutUint64 VUint64 padded_value_def)
next
  case VOther
  with assms(3) show ?thesis by (simp add: representable_def)
qed

theorem WriteEntry_ReadEntry_roundtrip_witness:
  "operable \<lparr>bit_e = 128, length_e = 32, config = CMOSEntryHex, config_id = 0, name = ''val''\<rparr>
   \<and> accessor_ok fixture_cmos
   \<and> representable \<lparr>bit_e = 128, length_e = 32, config = CMOSEntryHex, config_id = 0, name = ''val''\<rparr> (VUint64 0xDEADBEEF)
   \<and> (\<exists>c' out.
         WriteEntry fixture_cmos \<lparr>bit_e = 128, length_e = 32, config = CMOSEntryHex, config_id = 0, name = ''val''\<rparr> (encode_value \<lparr>bit_e = 128, length_e = 32, config = CMOSEntryHex, config_id = 0, name = ''val''\<rparr> (VUint64 0xDEADBEEF)) = (None, c')
         \<and> ReadEntry c' \<lparr>bit_e = 128, length_e = 32, config = CMOSEntryHex, config_id = 0, name = ''val''\<rparr> = Inr out
         \<and> decode_value \<lparr>bit_e = 128, length_e = 32, config = CMOSEntryHex, config_id = 0, name = ''val''\<rparr> out = Inr (VUint64 0xDEADBEEF))"
proof -
  let ?e = "\<lparr>bit_e = 128, length_e = 32, config = CMOSEntryHex, config_id = 0, name = ''val''\<rparr>"
  have h1: "operable ?e" by code_simp
  have h2: "accessor_ok fixture_cmos"
    by (simp add: accessor_ok_def fixture_cmos_def fixture_device_def)
  have h3: "representable ?e (VUint64 0xDEADBEEF)"
    by (simp add: representable_def)
  from h1 h2 h3 WriteEntry_ReadEntry_roundtrip [OF h1 h2 h3] show ?thesis
    by (simp add: padded_value_def)
qed

subsection \<open>C2: a write stays inside the entry\<close>

text \<open>
  Claim C2. For every operable entry \<open>e\<close>, every buffer \<open>v\<close> and every outcome of
  \<open>WriteEntry\<close> (also when a byte access fails on the way): bit \<open>j\<close> of byte \<open>i\<close>, which
  is bit \<open>8 * i + j\<close> of the CMOS, keeps its value when that position lies outside the
  closed range from \<open>bit\<close> to \<open>bit + length - 1\<close>; and a byte none of whose bits lies in
  the range keeps its value.
\<close>

theorem WriteEntry_frame:
  assumes "operable e" and "WriteEntry c e v = (r, c')"
  shows "(\<forall>i j. j < 8 \<and> (8 * unat i + j < unat (bit_e e)
                        \<or> unat (bit_e e) + unat (length_e e) \<le> 8 * unat i + j)
            \<longrightarrow> bit (cells (device c') i) j = bit (cells (device c) i) j)
       \<and> (\<forall>i. (\<forall>j < 8. 8 * unat i + j < unat (bit_e e)
                        \<or> unat (bit_e e) + unat (length_e e) \<le> 8 * unat i + j)
            \<longrightarrow> cells (device c') i = cells (device c) i)"
proof -
  define rem :: uint where
    "rem = (if length_e e > of_nat (length v * 8) then of_nat (length v * 8) else length_e e)"
  have le: "unat rem \<le> unat (length_e e)"
    by (simp add: rem_def word_less_nat_alt)
  from assms(1) have ver: "verifyCMOSOp e = None" by (simp add: operable_def)
  from assms(2) have run: "WriteEntry_loop c v 0 rem (bit_e e) = (r, c')"
    by (simp only: WriteEntry_def ver option.case Let_def rem_def)
  note bnd = operable_nat [OF assms(1)]
  have bits: "bit (cells (device c') i) j = bit (cells (device c) i) j"
    if "j < 8" and "8 * unat i + j < unat (bit_e e)
                        \<or> unat (bit_e e) + unat (length_e e) \<le> 8 * unat i + j" for i j
  proof (rule WriteEntry_loop_frame [OF run])
    show "unat (bit_e e) + unat rem \<le> 2048" using bnd(2) le by linarith
    show "unat (bit_e e) mod 8 = 0 \<or> unat (bit_e e) mod 8 + unat rem \<le> 8"
      using bnd(3) le by linarith
    show "j < 8" by fact
    show "8 * unat i + j < unat (bit_e e) \<or> unat (bit_e e) + unat rem \<le> 8 * unat i + j"
      using that(2) le by linarith
  qed
  have bytes: "cells (device c') i = cells (device c) i"
    if "\<forall>j < 8. 8 * unat i + j < unat (bit_e e)
                        \<or> unat (bit_e e) + unat (length_e e) \<le> 8 * unat i + j" for i
  proof (rule bit_eqI)
    fix j
    show "bit (cells (device c') i) j = bit (cells (device c) i) j"
    proof (cases "j < 8")
      case True
      with that bits show ?thesis by blast
    next
      case False
      then show ?thesis by (auto dest: bit_imp_le_length)
    qed
  qed
  from bits bytes show ?thesis by blast
qed

theorem WriteEntry_frame_witness:
  "operable \<lparr>bit_e = 115, length_e = 1, config = CMOSEntryHex, config_id = 0, name = ''flag''\<rparr>
   \<and> cells (device (snd (WriteEntry fixture_cmos \<lparr>bit_e = 115, length_e = 1, config = CMOSEntryHex, config_id = 0, name = ''flag''\<rparr> (PutUint64 1)))) 14 = 0xF8
   \<and> bit (cells (device (snd (WriteEntry fixture_cmos \<lparr>bit_e = 115, length_e = 1, config = CMOSEntryHex, config_id = 0, name = ''flag''\<rparr> (PutUint64 1)))) 14) 2
       = bit (cells (device fixture_cmos) 14) 2
   \<and> cells (device (snd (WriteEntry fixture_cmos \<lparr>bit_e = 115, length_e = 1, config = CMOSEntryHex, config_id = 0, name = ''flag''\<rparr> (PutUint64 1)))) 15
       = cells (device fixture_cmos) 15"
proof -
  let ?e = "\<lparr>bit_e = 115, length_e = 1, config = CMOSEntryHex, config_id = 0, name = ''flag''\<rparr>"
  let ?r = "WriteEntry fixture_cmos ?e (PutUint64 1)"
  have h1: "operable ?e" by code_simp
  have h2: "?r = (fst ?r, snd ?r)" by simp
  have new: "cells (device (snd ?r)) 14 = 0xF8" by code_simp
  note fr = WriteEntry_frame [OF h1 h2]
  from fr have "bit (cells (device (snd ?r)) 14) 2 = bit (cells (device fixture_cmos) 14) 2"
    by (elim conjE allE [where x = "14 :: uint"] allE [where x = "2 :: nat"]) simp
  moreover from fr have "cells (device (snd ?r)) 15 = cells (device fixture_cmos) 15"
    by (elim conjE allE [where x = "15 :: uint"]) simp
  ultimately show ?thesis using h1 new by blast
qed

subsection \<open>C3: the entry list of a layout\<close>

text \<open>
  Claim C3 says that the accepted entries are kept sorted by \<open>bit\<close>, that no two of them
  overlap, and that an entry overlapping an accepted one is rejected. The position loop
  of \<open>AddCMOSEntry\<close> leaves \<open>pos\<close> at the last index when no entry starts above the new
  one, so the new entry goes in front of the last entry instead of behind it. Adding the
  entries at bits 128 and 256 (8 bits each) to a new layout gives the list 256, 128; the
  entry at bit 120 of 16 bits, which overlaps the entry at 128, is then compared with the
  entry at 256 only and accepted.
\<close>

theorem AddCMOSEntry_unsorted_and_overlapping:
  "fst (AddCMOSEntry NewLayout \<lparr>bit_e = 128, length_e = 8, config = CMOSEntryHex, config_id = 0, name = ''a''\<rparr>) = None
   \<and> fst (AddCMOSEntry (snd (AddCMOSEntry NewLayout \<lparr>bit_e = 128, length_e = 8, config = CMOSEntryHex, config_id = 0, name = ''a''\<rparr>)) \<lparr>bit_e = 256, length_e = 8, config = CMOSEntryHex, config_id = 0, name = ''b''\<rparr>) = None
   \<and> map bit_e (entrieslist (snd (AddCMOSEntry (snd (AddCMOSEntry NewLayout \<lparr>bit_e = 128, length_e = 8, config = CMOSEntryHex, config_id = 0, name = ''a''\<rparr>)) \<lparr>bit_e = 256, length_e = 8, config = CMOSEntryHex, config_id = 0, name = ''b''\<rparr>)))
       = [256, 128]
   \<and> IsOverlap \<lparr>bit_e = 120, length_e = 16, config = CMOSEntryHex, config_id = 0, name = ''c''\<rparr> \<lparr>bit_e = 128, length_e = 8, config = CMOSEntryHex, config_id = 0, name = ''a''\<rparr>
   \<and> fst (AddCMOSEntry (snd (AddCMOSEntry (snd (AddCMOSEntry NewLayout \<lparr>bit_e = 128, length_e = 8, config = CMOSEntryHex, config_id = 0, name = ''a''\<rparr>)) \<lparr>bit_e = 256, length_e = 8, config = CMOSEntryHex, config_id = 0, name = ''b''\<rparr>)) \<lparr>bit_e = 120, length_e = 16, config = CMOSEntryHex, config_id = 0, name = ''c''\<rparr>) = None
   \<and> map bit_e (entrieslist
         (snd (AddCMOSEntry (snd (AddCMOSEntry (snd (AddCMOSEntry NewLayout \<lparr>bit_e = 128, length_e = 8, config = CMOSEntryHex, config_id = 0, name = ''a''\<rparr>)) \<lparr>bit_e = 256, length_e = 8, config = CMOSEntryHex, config_id = 0, name = ''b''\<rparr>)) \<lparr>bit_e = 120, length_e = 16, config = CMOSEntryHex, config_id = 0, name = ''c''\<rparr>)))
       = [120, 256, 128]"
  by code_simp

subsection \<open>C4: the checksum that Close persists\<close>

text \<open>
  Claim C4 says that after \<open>Close\<close> of a modified session on an accessor without IO errors
  the bytes at \<open>index\<close> and \<open>index + 1\<close> hold, high byte first, the 16-bit wrapping sum of
  the bytes from \<open>start\<close> to \<open>end\<close>, so that the checksum computed again matches the stored
  one. \<open>NewCMOSChecksum\<close> checks the range of \<open>index\<close> only, not of \<open>index + 1\<close>: it accepts
  the arguments 392, 1007 and 2040, which meet every condition the specification gives,
  and returns the descriptor with index 255. On the working device whose bytes are all
  \<open>0xF0\<close> the sum is \<open>0x4830\<close>. \<open>Close\<close> of the modified session returns no error; byte 255
  holds the high byte \<open>0x48\<close>, the low byte is written nowhere because the accessor refuses
  byte 256, and on the persisted state \<open>ReadChecksum\<close> and \<open>ValidateChecksum\<close> fail with
  \<open>ErrInvalidCMOSIndex\<close>. For every other index the checksum is persisted
  (\<open>Close_persists_checksum\<close>).
\<close>

theorem Close_leaves_checksum_unwritten:
  "NewCMOSChecksum 392 1007 2040 = Inr \<lparr>start_c = 49, end_c = 125, index_c = 255\<rparr>
   \<and> checksum_spec_ok 392 1007 2040
   \<and> accessor_ok (fixture_cmos\<lparr>checksum := \<lparr>start_c = 49, end_c = 125, index_c = 255\<rparr>\<rparr>)
   \<and> ComputeChecksum (fixture_cmos\<lparr>checksum := \<lparr>start_c = 49, end_c = 125, index_c = 255\<rparr>\<rparr>)
       = Inr 0x4830
   \<and> fst (Close 1 (fixture_session
          \<lparr>cmos := fixture_cmos\<lparr>checksum := \<lparr>start_c = 49, end_c = 125, index_c = 255\<rparr>\<rparr>,
           modified := True\<rparr>)) = None
   \<and> cells (device (cmos (snd (snd (Close 1 (fixture_session
          \<lparr>cmos := fixture_cmos\<lparr>checksum := \<lparr>start_c = 49, end_c = 125, index_c = 255\<rparr>\<rparr>,
           modified := True\<rparr>)))))) 255 = 0x48
   \<and> ReadByte ((cmos (snd (snd (Close 1 (fixture_session
          \<lparr>cmos := fixture_cmos\<lparr>checksum := \<lparr>start_c = 49, end_c = 125, index_c = 255\<rparr>\<rparr>,
           modified := True\<rparr>)))))\<lparr>accessor_open := True\<rparr>) (255 + 1) = Inl ErrInvalidCMOSIndex
   \<and> ReadChecksum ((cmos (snd (snd (Close 1 (fixture_session
          \<lparr>cmos := fixture_cmos\<lparr>checksum := \<lparr>start_c = 49, end_c = 125, index_c = 255\<rparr>\<rparr>,
           modified := True\<rparr>)))))\<lparr>accessor_open := True\<rparr>) = Inl ErrInvalidCMOSIndex
   \<and> ValidateChecksum (fixture_session
          \<lparr>cmos := (cmos (snd (snd (Close 1 (fixture_session
             \<lparr>cmos := fixture_cmos\<lparr>checksum := \<lparr>start_c = 49, end_c = 125, index_c = 255\<rparr>\<rparr>,
              modified := True\<rparr>)))))\<lparr>accessor_open := True\<rparr>\<rparr>) = Some ErrInvalidCMOSIndex"
proof -
  have "accessor_ok (fixture_cmos\<lparr>checksum := \<lparr>start_c = 49, end_c = 125, index_c = 255\<rparr>\<rparr>)"
    by (simp add: accessor_ok_def fixture_cmos_def fixture_device_def)
  moreover have "checksum_spec_ok 392 1007 2040" by code_simp
  moreover have "NewCMOSChecksum 392 1007 2040 = Inr \<lparr>start_c = 49, end_c = 125, index_c = 255\<rparr>"
    by code_simp
  moreover have "ComputeChecksum (fixture_cmos\<lparr>checksum := \<lparr>start_c = 49, end_c = 125, index_c = 255\<rparr>\<rparr>)
       = Inr 0x4830" by code_simp
  moreover have "fst (Close 1 (fixture_session
          \<lparr>cmos := fixture_cmos\<lparr>checksum := \<lparr>start_c = 49, end_c = 125, index_c = 255\<rparr>\<rparr>,
           modified := True\<rparr>)) = None" by code_simp
  moreover have "cells (device (cmos (snd (snd (Close 1 (fixture_session
          \<lparr>cmos := fixture_cmos\<lparr>checksum := \<lparr>start_c = 49, end_c = 125, index_c = 255\<rparr>\<rparr>,
           modified := True\<rparr>)))))) 255 = 0x48" by code_simp
  moreover have "ReadByte ((cmos (snd (snd (Close 1 (fixture_session
          \<lparr>cmos := fixture_cmos\<lparr>checksum := \<lparr>start_c = 49, end_c = 125, index_c = 255\<rparr>\<rparr>,
           modified := True\<rparr>)))))\<lparr>accessor_open := True\<rparr>) (255 + 1) = Inl ErrInvalidCMOSIndex"
    by code_simp
  moreover have "ReadChecksum ((cmos (snd (snd (Close 1 (fixture_session
          \<lparr>cmos := fixture_cmos\<lparr>checksum := \<lparr>start_c = 49, end_c = 125, index_c = 255\<rparr>\<rparr>,
           modified := True\<rparr>)))))\<lparr>accessor_open := True\<rparr>) = Inl ErrInvalidCMOSIndex"
    by code_simp
  moreover have "ValidateChecksum (fixture_session
          \<lparr>cmos := (cmos (snd (snd (Close 1 (fixture_session
             \<lparr>cmos := fixture_cmos\<lparr>checksum := \<lparr>start_c = 49, end_c = 125, index_c = 255\<rparr>\<rparr>,
              modified := True\<rparr>)))))\<lparr>accessor_open := True\<rparr>\<rparr>) = Some ErrInvalidCMOSIndex"
    by code_simp
  ultimately show ?thesis by blast
qed

theorem Close_leaves_checksum_unwritten_witness:
  "accessor_ok (fixture_cmos\<lparr>checksum := \<lparr>start_c = 49, end_c = 125, index_c = 255\<rparr>\<rparr>)
   \<and> checksum_spec_ok 392 1007 2040"
  using Close_leaves_checksum_unwritten by blast

subsection \<open>C5: the lock after a failed Open\<close>

text \<open>
  Claim C5 says that \<open>Open\<close> releases the lock when a step after the compare-and-swap
  fails. No \<open>return\<close> of \<open>Open\<close> stores 0 to \<open>lockstate\<close>: on a machine whose text layout
  \<open>missing\<close> cannot be loaded, \<open>Open\<close> returns the loader's error with the lock still
  held, and the next \<open>Open\<close>, of a layout that loads, fails with \<open>ErrNVRAMAccessInUse\<close>.
\<close>

theorem Open_error_keeps_lock:
  "fst (Open \<lparr>ReadLayoutFromCoreBootTable = (None, Some LoadError),
          ReadLayoutFromCMOSTableBinary = (\<lambda>f. (None, Some LoadError)),
          ReadLayoutFromTextFile =
            (\<lambda>f. if f = ''missing'' then (None, Some LoadError) else (Some fixture_layout, None)),
          CMOSHW_Open = Inr fixture_device,
          CMOSMem_Open = (\<lambda>f. Inr fixture_device)\<rparr> [''missing''] 0 fixture_session) = Some LoadError
   \<and> fst (snd (Open \<lparr>ReadLayoutFromCoreBootTable = (None, Some LoadError),
          ReadLayoutFromCMOSTableBinary = (\<lambda>f. (None, Some LoadError)),
          ReadLayoutFromTextFile =
            (\<lambda>f. if f = ''missing'' then (None, Some LoadError) else (Some fixture_layout, None)),
          CMOSHW_Open = Inr fixture_device,
          CMOSMem_Open = (\<lambda>f. Inr fixture_device)\<rparr> [''missing''] 0 fixture_session)) = 1
   \<and> fst (Open \<lparr>ReadLayoutFromCoreBootTable = (None, Some LoadError),
          ReadLayoutFromCMOSTableBinary = (\<lambda>f. (None, Some LoadError)),
          ReadLayoutFromTextFile =
            (\<lambda>f. if f = ''missing'' then (None, Some LoadError) else (Some fixture_layout, None)),
          CMOSHW_Open = Inr fixture_device,
          CMOSMem_Open = (\<lambda>f. Inr fixture_device)\<rparr> [''cmos.layout'']
            (fst (snd (Open \<lparr>ReadLayoutFromCoreBootTable = (None, Some LoadError),
          ReadLayoutFromCMOSTableBinary = (\<lambda>f. (None, Some LoadError)),
          ReadLayoutFromTextFile =
            (\<lambda>f. if f = ''missing'' then (None, Some LoadError) else (Some fixture_layout, None)),
          CMOSHW_Open = Inr fixture_device,
          CMOSMem_Open = (\<lambda>f. Inr fixture_device)\<rparr> [''missing''] 0 fixture_session)))
            (snd (snd (Open \<lparr>ReadLayoutFromCoreBootTable = (None, Some LoadError),
          ReadLayoutFromCMOSTableBinary = (\<lambda>f. (None, Some LoadError)),
          ReadLayoutFromTextFile =
            (\<lambda>f. if f = ''missing'' then (None, Some LoadError) else (Some fixture_layout, None)),
          CMOSHW_Open = Inr fixture_device,
          CMOSMem_Open = (\<lambda>f. Inr fixture_device)\<rparr> [''missing''] 0 fixture_session))))
       = Some ErrNVRAMAccessInUse
   \<and> fst (Open \<lparr>ReadLayoutFromCoreBootTable = (None, Some LoadError),
          ReadLayoutFromCMOSTableBinary = (\<lambda>f. (None, Some LoadError)),
          ReadLayoutFromTextFile =
            (\<lambda>f. if f = ''missing'' then (None, Some LoadError) else (Some fixture_layout, None)),
          CMOSHW_Open = Inr fixture_device,
          CMOSMem_Open = (\<lambda>f. Inr fixture_device)\<rparr> [''cmos.layout''] 0 fixture_session) = None"
  by code_simp

subsection \<open>C6: a value of the wrong type\<close>

text \<open>
  Claim C6 says that \<open>WriteCMOSParameter\<close> with a value of the wrong dynamic type returns
  a type error and changes neither the CMOS nor \<open>modified\<close>. The source assigns the type
  error and goes on with the zero value: a string written to the Hex entry \<open>speed\<close>
  (bit 120, byte 15) writes 0 over the byte, sets \<open>modified\<close> and returns no error.
\<close>

theorem WriteCMOSParameter_wrong_type_writes_zero:
  "cells (device (cmos fixture_session)) 15 = 0xF0
   \<and> \<not> modified fixture_session
   \<and> fst (WriteCMOSParameter fixture_session ''speed'' (VString ''abc'')) = None
   \<and> modified (snd (WriteCMOSParameter fixture_session ''speed'' (VString ''abc'')))
   \<and> cells (device (cmos (snd (WriteCMOSParameter fixture_session ''speed'' (VString ''abc''))))) 15 = 0"
  by code_simp

subsection \<open>C7: the checksum descriptor\<close>

text \<open>
  Claim C7 says that \<open>NewCMOSChecksum\<close> accepts exactly the aligned, in-range descriptors
  whose summed bytes are disjoint from the two checksum bytes. The source passes
  \<open>index + 1\<close> to \<open>checkAreaOverLap\<close> as the length of the location, so the location it
  tests runs from \<open>index\<close> to \<open>2 * index\<close>. The descriptor with the area in bytes 100..125
  and the checksum in bytes 50 and 51 (bits 800, 1007, 400) meets the condition of the
  claim and is rejected.
\<close>

theorem NewCMOSChecksum_rejects_disjoint_location:
  "checksum_spec_ok 800 1007 400
   \<and> NewCMOSChecksum 800 1007 400 = Inl ChecksumOverlapsSummedArea"
  by code_simp

theorem NewCMOSChecksum_rejects_disjoint_location_witness:
  "checksum_spec_ok 800 1007 400
   \<and> NewCMOSChecksum 800 1007 400 \<noteq> Inr \<lparr>start_c = 100, end_c = 125, index_c = 50\<rparr>"
  using NewCMOSChecksum_rejects_disjoint_location by simp

subsection \<open>C8: the two enumeration lookups\<close>

text \<open>
  Claim C8 says that after any sequence of \<open>AddCMOSEnum\<close> calls \<open>FindCMOSEnumText\<close> and
  \<open>FindCMOSEnumValue\<close> are inverse to each other. \<open>AddCMOSEnum\<close> stores into both maps
  without looking at what they hold, so after the items (7, 0, off) and (7, 1, off) the
  value 0 has the text off, and the text off has the value 1.
\<close>

theorem enum_lookups_counterexample:
  "FindCMOSEnumText (foldl AddCMOSEnum NewLayout [\<lparr>id_i = 7, value_i = 0, text_i = ''off''\<rparr>, \<lparr>id_i = 7, value_i = 1, text_i = ''off''\<rparr>]) 7 0 = Some ''off''
   \<and> FindCMOSEnumValue (foldl AddCMOSEnum NewLayout [\<lparr>id_i = 7, value_i = 0, text_i = ''off''\<rparr>, \<lparr>id_i = 7, value_i = 1, text_i = ''off''\<rparr>]) 7 ''off'' = Some 1
   \<and> FindCMOSEnumValue (foldl AddCMOSEnum NewLayout [\<lparr>id_i = 7, value_i = 0, text_i = ''off''\<rparr>, \<lparr>id_i = 7, value_i = 1, text_i = ''off''\<rparr>]) 7 ''off'' \<noteq> Some 0"
  by code_simp

text \<open>
  Claim C8, amended. After the items of any list have been added to a new layout, where
  any two items of the list with the same id have the same value exactly when they have
  the same text: \<open>FindCMOSEnumText\<close> gives the text \<open>t\<close> for the value \<open>v\<close> of an id if and
  only if \<open>FindCMOSEnumValue\<close> gives the value \<open>v\<close> for the text \<open>t\<close> of that id.
\<close>

theorem enum_lookups_inverse:
  assumes "enum_items_consistent items"
  shows "FindCMOSEnumText (foldl AddCMOSEnum NewLayout items) i v = Some t
         \<longleftrightarrow> FindCMOSEnumValue (foldl AddCMOSEnum NewLayout items) i t = Some v"
proof
  let ?l = "foldl AddCMOSEnum NewLayout items"
  assume "FindCMOSEnumText ?l i v = Some t"
  then obtain a where a: "a \<in> set items" "id_i a = i" "value_i a = v" "text_i a = t"
    by (auto dest: FindCMOSEnumText_items)
  from FindCMOSEnumValue_defined [OF a(1)] obtain v' where v': "FindCMOSEnumValue ?l i t = Some v'"
    by (auto simp: a)
  then obtain b where b: "b \<in> set items" "id_i b = i" "value_i b = v'" "text_i b = t"
    by (auto dest: FindCMOSEnumValue_items)
  from assms a b have "v' = v"
    by (auto simp: enum_items_consistent_def)
  with v' show "FindCMOSEnumValue ?l i t = Some v" by simp
next
  let ?l = "foldl AddCMOSEnum NewLayout items"
  assume "FindCMOSEnumValue ?l i t = Some v"
  then obtain a where a: "a \<in> set items" "id_i a = i" "value_i a = v" "text_i a = t"
    by (auto dest: FindCMOSEnumValue_items)
  from FindCMOSEnumText_defined [OF a(1)] obtain t' where t': "FindCMOSEnumText ?l i v = Some t'"
    by (auto simp: a)
  then obtain b where b: "b \<in> set items" "id_i b = i" "value_i b = v" "text_i b = t'"
    by (auto dest: FindCMOSEnumText_items)
  from assms a b have "t' = t"
    by (auto simp: enum_items_consistent_def)
  with t' show "FindCMOSEnumText ?l i v = Some t" by simp
qed

theorem enum_lookups_inverse_witness:
  "enum_items_consistent [\<lparr>id_i = 7, value_i = 0, text_i = ''off''\<rparr>, \<lparr>id_i = 7, value_i = 1, text_i = ''on''\<rparr>]
   \<and> FindCMOSEnumText (foldl AddCMOSEnum NewLayout [\<lparr>id_i = 7, value_i = 0, text_i = ''off''\<rparr>, \<lparr>id_i = 7, value_i = 1, text_i = ''on''\<rparr>]) 7 1 = Some ''on''
   \<and> FindCMOSEnumValue (foldl AddCMOSEnum NewLayout [\<lparr>id_i = 7, value_i = 0, text_i = ''off''\<rparr>, \<lparr>id_i = 7, value_i = 1, text_i = ''on''\<rparr>]) 7 ''on'' = Some 1"
proof -
  have c: "enum_items_consistent [\<lparr>id_i = 7, value_i = 0, text_i = ''off''\<rparr>, \<lparr>id_i = 7, value_i = 1, text_i = ''on''\<rparr>]"
    by (simp add: enum_items_consistent_def)
  have t: "FindCMOSEnumText (foldl AddCMOSEnum NewLayout [\<lparr>id_i = 7, value_i = 0, text_i = ''off''\<rparr>, \<lparr>id_i = 7, value_i = 1, text_i = ''on''\<rparr>]) 7 1 = Some ''on''"
    by code_simp
  from c t enum_lookups_inverse [OF c, THEN iffD1, OF t] show ?thesis by simp
qed

subsection \<open>C9: a checksum error in Close\<close>

text \<open>
  Claim C9 says that a failure of the checksum update in \<open>Close\<close> still closes the
  accessor and releases the lock, and that the error is reported to the caller. The
  first two hold; the error is dropped. \<open>NewCMOSChecksum\<close> accepts the location at byte
  255 (bit 2040), whose second byte would be byte 256: on a working device the sum is
  computed, the write of the second byte is refused with \<open>ErrInvalidCMOSIndex\<close>, and
  \<open>Close\<close> of the modified session returns no error, with the lock released, the
  accessor closed and \<open>modified\<close> still set. The same happens when the read of byte 49
  fails and \<open>ComputeChecksum\<close> returns the error.
\<close>

theorem Close_drops_checksum_error:
  "NewCMOSChecksum 392 1007 2040 = Inr \<lparr>start_c = 49, end_c = 125, index_c = 255\<rparr>
   \<and> ComputeChecksum (fixture_cmos\<lparr>checksum := \<lparr>start_c = 49, end_c = 125, index_c = 255\<rparr>\<rparr>)
       = Inr 0x4830
   \<and> fst (WriteChecksum (fixture_cmos\<lparr>checksum := \<lparr>start_c = 49, end_c = 125, index_c = 255\<rparr>\<rparr>) 0x4830)
       = Some ErrInvalidCMOSIndex
   \<and> fst (Close 1 (fixture_session
          \<lparr>cmos := fixture_cmos\<lparr>checksum := \<lparr>start_c = 49, end_c = 125, index_c = 255\<rparr>\<rparr>,
           modified := True\<rparr>)) = None
   \<and> fst (snd (Close 1 (fixture_session
          \<lparr>cmos := fixture_cmos\<lparr>checksum := \<lparr>start_c = 49, end_c = 125, index_c = 255\<rparr>\<rparr>,
           modified := True\<rparr>))) = 0
   \<and> \<not> accessor_open (cmos (snd (snd (Close 1 (fixture_session
          \<lparr>cmos := fixture_cmos\<lparr>checksum := \<lparr>start_c = 49, end_c = 125, index_c = 255\<rparr>\<rparr>,
           modified := True\<rparr>)))))
   \<and> modified (snd (snd (Close 1 (fixture_session
          \<lparr>cmos := fixture_cmos\<lparr>checksum := \<lparr>start_c = 49, end_c = 125, index_c = 255\<rparr>\<rparr>,
           modified := True\<rparr>))))
   \<and> ComputeChecksum (fixture_cmos\<lparr>device := fixture_device\<lparr>rd_fault := (\<lambda>i. i = 49)\<rparr>\<rparr>) = Inl IOError
   \<and> fst (Close 1 (fixture_session\<lparr>cmos := fixture_cmos\<lparr>device := fixture_device\<lparr>rd_fault := (\<lambda>i. i = 49)\<rparr>\<rparr>,
                                     modified := True\<rparr>)) = None"
  by code_simp

theorem Close_drops_checksum_error_witness:
  "NewCMOSChecksum 392 1007 2040 = Inr \<lparr>start_c = 49, end_c = 125, index_c = 255\<rparr>"
  using Close_drops_checksum_error by (rule conjunct1)

subsection \<open>C10: bounds of the codec\<close>

text \<open>
  Claim C10 says that for every entry \<open>verifyCMOSOp\<close> accepts both loops end and every
  index they use is in bounds. The range check of \<open>verifyCMOSEntry\<close> adds \<open>bit\<close> and
  \<open>length\<close> as 64-bit numbers: for the String entry at bit 112 of length \<open>2 ^ 64 - 1\<close>
  the sum wraps to 111 and the entry is accepted. \<open>ReadEntry\<close> then allocates
  \<open>(length + 7) / 8 = 0\<close> bytes, reads byte 14 and stores it at index 0 of the empty
  buffer, which is the panic.
\<close>

theorem ReadEntry_index_out_of_range:
  "verifyCMOSOp \<lparr>bit_e = 112, length_e = 18446744073709551615, config = CMOSEntryString, config_id = 0, name = ''big''\<rparr> = None
   \<and> ReadEntry fixture_cmos \<lparr>bit_e = 112, length_e = 18446744073709551615, config = CMOSEntryString, config_id = 0, name = ''big''\<rparr> = Inl PanicIndexOutOfRange"
  by code_simp

end
